theory Spec2Isabelle
  imports Main "HOL-Library.Char_ord" "HOL-Library.List_Lexorder" "HOL-Library.Monad_Syntax"
    "HOL-Library.Word"
begin

section \<open>validate\_raw.py: pre-flight validation of the raw directory\<close>

text \<open>
  A Python \<^verbatim>\<open>str\<close> is modelled as a \<^typ>\<open>string\<close>: one \<^typ>\<open>char\<close> per
  character, which covers the code points below 256. In that range the class
  \<^verbatim>\<open>\d\<close> holds the ten ASCII digits only, and a letter of the pattern matches,
  under \<^verbatim>\<open>re.IGNORECASE\<close>, exactly its two ASCII forms.
\<close>

subsection \<open>Characters\<close>

definition is_digit :: "char \<Rightarrow> bool" where
  "is_digit c = (c \<in> set ''0123456789'')"

text \<open>\<^verbatim>\<open>str.lower()\<close> on the ASCII letters; every other character is kept.\<close>

definition lower_char :: "char \<Rightarrow> char" where
  "lower_char c =
     (case map_of (zip ''ABCDEFGHIJKLMNOPQRSTUVWXYZ'' ''abcdefghijklmnopqrstuvwxyz'') c of
        Some l \<Rightarrow> l
      | None \<Rightarrow> c)"

definition str_lower :: "string \<Rightarrow> string" where
  "str_lower s = map lower_char s"

subsection \<open>The filename pattern\<close>

text \<open>
  \<^verbatim>\<open>FILENAME_RE = re.compile(
      r"^(?P<device>\d+)_(?P<direction>incoming|outgoing)_(?P<x>\d+)_(?P<y>\d+)\.json$",
      re.IGNORECASE)\<close>

  Each piece of the pattern is a function from the rest of the input to the text it
  consumed and what is left. \<^verbatim>\<open>\d+\<close> is greedy; the flag \<^verbatim>\<open>re.IGNORECASE\<close>
  holds for the whole pattern, hence for every literal of it. \<^verbatim>\<open>$\<close> (without
  \<^verbatim>\<open>re.MULTILINE\<close>) matches at the end of the string and also just before a
  newline that is the last character of the string.
\<close>

definition re_digits :: "string \<Rightarrow> (string \<times> string) option" where
  "re_digits s =
     (if takeWhile is_digit s = [] then None
      else Some (takeWhile is_digit s, dropWhile is_digit s))"

definition re_literal :: "string \<Rightarrow> string \<Rightarrow> (string \<times> string) option" where
  "re_literal pat s =
     (if length pat \<le> length s \<and> str_lower (take (length pat) s) = str_lower pat
      then Some (take (length pat) s, drop (length pat) s)
      else None)"

definition re_alt ::
  "(string \<Rightarrow> (string \<times> string) option) \<Rightarrow> (string \<Rightarrow> (string \<times> string) option)
     \<Rightarrow> string \<Rightarrow> (string \<times> string) option" where
  "re_alt p q s = (case p s of Some r \<Rightarrow> Some r | None \<Rightarrow> q s)"

definition re_dollar :: "string \<Rightarrow> bool" where
  "re_dollar s = (s = [] \<or> s = [CHR 0x0A])"

text \<open>
  The dictionary \<^verbatim>\<open>parse_filename\<close> returns, with its four keys \<^verbatim>\<open>device\<close>,
  \<^verbatim>\<open>direction\<close>, \<^verbatim>\<open>x\<close> and \<^verbatim>\<open>y\<close> (the last two are the fields \<open>tile_x\<close> and
  \<open>tile_y\<close>).
\<close>

record parsed_filename =
  device :: string
  direction :: string
  tile_x :: string
  tile_y :: string

definition parse_filename :: "string \<Rightarrow> parsed_filename option" where
  "parse_filename name =
     do {
       (dev, s1) \<leftarrow> re_digits name;
       (_, s2) \<leftarrow> re_literal ''_'' s1;
       (dir, s3) \<leftarrow> re_alt (re_literal ''incoming'') (re_literal ''outgoing'') s2;
       (_, s4) \<leftarrow> re_literal ''_'' s3;
       (xs, s5) \<leftarrow> re_digits s4;
       (_, s6) \<leftarrow> re_literal ''_'' s5;
       (ys, s7) \<leftarrow> re_digits s6;
       (_, s8) \<leftarrow> re_literal ''.json'' s7;
       if re_dollar s8
       then Some \<lparr>device = dev, direction = str_lower dir, tile_x = xs, tile_y = ys\<rparr>
       else None
     }"

subsection \<open>Parsed JSON documents\<close>

text \<open>
  The values \<^verbatim>\<open>json.load\<close> returns: \<^verbatim>\<open>None\<close>, \<^verbatim>\<open>bool\<close>, \<^verbatim>\<open>int\<close>,
  \<^verbatim>\<open>float\<close>, \<^verbatim>\<open>str\<close>, \<^verbatim>\<open>list\<close> and \<^verbatim>\<open>dict\<close>. A \<^verbatim>\<open>dict\<close> is an association
  list read with \<^const>\<open>map_of\<close>.
\<close>

datatype float_value = Finite int int | Infinity bool | NaN

datatype json =
    JNull
  | JBool bool
  | JInt int
  | JFloat float_value
  | JStr string
  | JArr "json list"
  | JObj "(string \<times> json) list"

definition EXPECTED_FIELDS :: "string list" where
  "EXPECTED_FIELDS =
     [''id'', ''parentid'', ''trips'', ''frc'', ''geometry'',
      ''processingfailures'', ''privacytrims'']"

subsection \<open>Messages\<close>

text \<open>
  Errors and warnings are Python strings built by f-strings. Each constructor stands
  for one f-string of the source and carries the values interpolated into it; the text
  of a caught exception is not modelled.

  \<^item> \<open>NotJsonObject n\<close>: \<^verbatim>\<open>{path.name}: top-level value is not a JSON object\<close>
  \<^item> \<open>MissingKey n k\<close>: \<^verbatim>\<open>{path.name}: missing required key 'k'\<close>
  \<^item> \<open>NotAnArray n k\<close>: \<^verbatim>\<open>{path.name}: 'k' is not an array\<close>
  \<^item> \<open>SchemaMismatch n nf\<close>: \<^verbatim>\<open>{path.name}: nodeFormat fields do not match expected schema (got {nf})\<close>
  \<^item> \<open>NodeNotArray n i\<close>: \<^verbatim>\<open>{path.name}: node[{i}] is not an array\<close>
  \<^item> \<open>NodeWrongLength n i l e\<close>: \<^verbatim>\<open>{path.name}: node[{i}] has {len(node)} elements, expected {expected_len}\<close>
  \<^item> \<open>CannotRead n\<close>: \<^verbatim>\<open>{fp.name}: cannot read/parse ... {exc}\<close>
  \<^item> \<open>ContentHashDuplicate ns\<close>: \<^verbatim>\<open>Content-hash duplicate: the following files are identical: {names}\<close>
  \<^item> \<open>SlotCollision k ns\<close>: \<^verbatim>\<open>Slot collision for [{key}]: {names}\<close>
  \<^item> \<open>BadPattern n\<close>: \<^verbatim>\<open>{fp.name}: filename does not match expected pattern ...\<close>
  \<^item> \<open>NoJsonFiles d\<close>: \<^verbatim>\<open>No *.json files found in {raw_dir}\<close>
  \<^item> \<open>Orphan d n\<close>: \<^verbatim>\<open>Orphan in {output_dir.name}/: {out_fp.name}\<close>
\<close>

datatype message =
    NotJsonObject string
  | MissingKey string string
  | NotAnArray string string
  | SchemaMismatch string "json list"
  | NodeNotArray string nat
  | NodeWrongLength string nat nat nat
  | CannotRead string
  | ContentHashDuplicate "string list"
  | SlotCollision string "string list"
  | BadPattern string
  | NoJsonFiles string
  | Orphan string string

subsection \<open>Structural validation\<close>

text \<open>\<^verbatim>\<open>[f.lower() if isinstance(f, str) else f for f in nf]\<close>, one element.\<close>

fun lower_field :: "json \<Rightarrow> json" where
  "lower_field (JStr s) = JStr (str_lower s)"
| "lower_field v = v"

text \<open>The loop \<^verbatim>\<open>for i, node in enumerate(doc["nodes"])\<close>, from index \<open>i\<close> on.\<close>

fun check_nodes :: "string \<Rightarrow> nat \<Rightarrow> nat \<Rightarrow> json list \<Rightarrow> message option" where
  "check_nodes pname expected_len i [] = None"
| "check_nodes pname expected_len i (node # rest) =
     (case node of
        JArr cells \<Rightarrow>
          if length cells \<noteq> expected_len
          then Some (NodeWrongLength pname i (length cells) expected_len)
          else check_nodes pname expected_len (Suc i) rest
      | _ \<Rightarrow> Some (NodeNotArray pname i))"

text \<open>\<open>pname\<close> is \<^verbatim>\<open>path.name\<close>, the only use the source makes of \<^verbatim>\<open>path\<close>.\<close>

definition validate_structure :: "json \<Rightarrow> string \<Rightarrow> message option" where
  "validate_structure doc pname =
     (case doc of
        JObj kvs \<Rightarrow>
          (case map_of kvs ''nodeFormat'' of
             None \<Rightarrow> Some (MissingKey pname ''nodeFormat'')
           | Some nfv \<Rightarrow>
               (case map_of kvs ''nodes'' of
                  None \<Rightarrow> Some (MissingKey pname ''nodes'')
                | Some nodesv \<Rightarrow>
                    (case nfv of
                       JArr nf \<Rightarrow>
                         (case nodesv of
                            JArr nodes \<Rightarrow>
                              if map lower_field nf \<noteq> map JStr EXPECTED_FIELDS
                              then Some (SchemaMismatch pname nf)
                              else check_nodes pname (length nf) 0 nodes
                          | _ \<Rightarrow> Some (NotAnArray pname ''nodes''))
                     | _ \<Rightarrow> Some (NotAnArray pname ''nodeFormat''))))
      | _ \<Rightarrow> Some (NotJsonObject pname))"

subsection \<open>Files and directories\<close>

text \<open>
  A file of the raw directory: its name, its bytes (what \<^verbatim>\<open>file_hash\<close> reads) and the
  outcome of \<^verbatim>\<open>open(fp, encoding="utf-8")\<close> followed by \<^verbatim>\<open>json.load(f)\<close>:
  a document, one of the two exceptions the source catches
  (\<^verbatim>\<open>json.JSONDecodeError\<close>, \<^verbatim>\<open>OSError\<close>), or any other exception
  (\<^verbatim>\<open>UnicodeDecodeError\<close> on bytes that are not UTF-8, for one), which nothing catches.
\<close>

type_synonym bytes = "8 word list"

datatype load_result = Loaded json | LoadFailed | LoadRaised

record raw_file =
  name :: string
  content :: bytes
  loaded :: load_result

text \<open>
  An entry of the output directory; \<open>unlink_ok\<close> tells whether \<^verbatim>\<open>Path.unlink\<close>
  succeeds on it (it raises on a subdirectory or without permission).
\<close>

record out_file =
  out_name :: string
  unlink_ok :: bool

text \<open>
  A directory argument: the path as given, its last component (\<^verbatim>\<open>Path.name\<close>) and its
  entries, \<open>None\<close> when the path is not a directory.
\<close>

record 'e dir =
  dir_path :: string
  dir_name :: string
  listing :: "'e list option"

text \<open>\<^verbatim>\<open>sorted(d.glob("*.json"))\<close>; nothing is listed under a path that is no directory.\<close>

definition glob_json :: "string \<Rightarrow> bool" where
  "glob_json n = (5 \<le> length n \<and> drop (length n - 5) n = ''.json'')"

definition sorted_glob :: "('e \<Rightarrow> string) \<Rightarrow> 'e list option \<Rightarrow> 'e list" where
  "sorted_glob nm l =
     (case l of None \<Rightarrow> [] | Some es \<Rightarrow> sort_key nm (filter (\<lambda>e. glob_json (nm e)) es))"

subsection \<open>The state of a run\<close>

record stats =
  total_files :: int
  valid_files :: int
  bad_pattern :: int
  bad_json :: int
  bad_structure :: int
  hash_dupes :: int
  slot_collisions :: int
  orphans :: int
  orphans_deleted :: int

text \<open>
  What a run does to the output directory, in the order it does it:
  \<open>ListOutput\<close> is \<^verbatim>\<open>sorted(output_dir.glob("*.json"))\<close>, \<open>OrphanFound n\<close> the
  report of an orphan (warning and counter), \<open>Unlink n\<close> is \<^verbatim>\<open>out_fp.unlink()\<close>.
\<close>

datatype fs_event = ListOutput | OrphanFound string | Unlink string

datatype exn = LoadException string | UnlinkException string

text \<open>
  The variables of \<^verbatim>\<open>validate_raw\<close> (\<open>valid_list\<close> is the list \<^verbatim>\<open>valid_files\<close>,
  named apart from the counter), the entries of the output directory as they are at
  this point of the run, and the events so far. The function returns \<open>errors\<close>,
  \<open>warnings\<close> and \<open>stats\<close>.
\<close>

record run_state =
  errors :: "message list"
  warnings :: "message list"
  stats :: stats
  valid_list :: "raw_file list"
  parsed_names :: "(raw_file \<times> parsed_filename) list"
  out_files :: "out_file list"
  fs_events :: "fs_event list"

subsection \<open>Dictionaries in insertion order\<close>

text \<open>\<^verbatim>\<open>d[k] = v\<close>\<close>

fun dict_set :: "'k \<Rightarrow> 'v \<Rightarrow> ('k \<times> 'v) list \<Rightarrow> ('k \<times> 'v) list" where
  "dict_set k v [] = [(k, v)]"
| "dict_set k v ((k', v') # d) =
     (if k = k' then (k', v) # d else (k', v') # dict_set k v d)"

text \<open>\<^verbatim>\<open>d.setdefault(k, []).append(v)\<close>\<close>

fun setdefault_append :: "'k \<Rightarrow> 'v \<Rightarrow> ('k \<times> 'v list) list \<Rightarrow> ('k \<times> 'v list) list" where
  "setdefault_append k v [] = [(k, [v])]"
| "setdefault_append k v ((k', vs) # d) =
     (if k = k' then (k', vs @ [v]) # d else (k', vs) # setdefault_append k v d)"

subsection \<open>Content hash\<close>

text \<open>
  \<^verbatim>\<open>iter(lambda: f.read(n), b"")\<close>: the chunks read until the empty one. The hash object
  is the bytes fed to it so far; \<open>sha256\<close>, the digest of \<^verbatim>\<open>hashlib\<close>, is a parameter.
\<close>

function read_chunks :: "nat \<Rightarrow> bytes \<Rightarrow> bytes list" where
  "read_chunks n bs = (if n = 0 \<or> bs = [] then [] else take n bs # read_chunks n (drop n bs))"
  by pat_completeness auto
termination
  by (relation "measure (\<lambda>(n, bs). length bs)") auto

declare read_chunks.simps [simp del]

definition file_hash :: "(bytes \<Rightarrow> string) \<Rightarrow> raw_file \<Rightarrow> string" where
  "file_hash sha256 path = sha256 (foldl (\<lambda>h chunk. h @ chunk) [] (read_chunks 8192 (content path)))"

subsection \<open>Pass 1: pattern check, JSON readability, structure\<close>

definition scan_file :: "raw_file \<Rightarrow> run_state \<Rightarrow> exn + run_state" where
  "scan_file fp s =
     (let parts = parse_filename (name fp);
          s1 = (if parts = None
                then s\<lparr>warnings := warnings s @ [BadPattern (name fp)],
                       stats := (stats s)\<lparr>bad_pattern := bad_pattern (stats s) + 1\<rparr>\<rparr>
                else s)
      in case loaded fp of
           LoadRaised \<Rightarrow> Inl (LoadException (name fp))
         | LoadFailed \<Rightarrow>
             Inr (s1\<lparr>errors := errors s1 @ [CannotRead (name fp)],
                     stats := (stats s1)\<lparr>bad_json := bad_json (stats s1) + 1\<rparr>\<rparr>)
         | Loaded doc \<Rightarrow>
             (case validate_structure doc (name fp) of
                Some err \<Rightarrow>
                  Inr (s1\<lparr>errors := errors s1 @ [err],
                          stats := (stats s1)\<lparr>bad_structure := bad_structure (stats s1) + 1\<rparr>\<rparr>)
              | None \<Rightarrow>
                  Inr (s1\<lparr>valid_list := valid_list s1 @ [fp],
                          parsed_names :=
                            (case parts of
                               None \<Rightarrow> parsed_names s1
                             | Some p \<Rightarrow> dict_set fp p (parsed_names s1))\<rparr>)))"

fun scan_files :: "raw_file list \<Rightarrow> run_state \<Rightarrow> exn + run_state" where
  "scan_files [] s = Inr s"
| "scan_files (fp # rest) s =
     (case scan_file fp s of Inl e \<Rightarrow> Inl e | Inr s' \<Rightarrow> scan_files rest s')"

subsection \<open>Pass 2: content-hash duplicates\<close>

definition hash_groups :: "(bytes \<Rightarrow> string) \<Rightarrow> raw_file list \<Rightarrow> (string \<times> raw_file list) list" where
  "hash_groups sha256 fps = foldl (\<lambda>hashes fp. setdefault_append (file_hash sha256 fp) fp hashes) [] fps"

definition report_duplicate :: "run_state \<Rightarrow> string \<times> raw_file list \<Rightarrow> run_state" where
  "report_duplicate s item =
     (case item of (h, paths) \<Rightarrow>
        if 1 < length paths
        then s\<lparr>errors := errors s @ [ContentHashDuplicate (map name paths)],
               stats := (stats s)\<lparr>hash_dupes := hash_dupes (stats s) + (int (length paths) - 1)\<rparr>\<rparr>
        else s)"

definition hash_pass :: "(bytes \<Rightarrow> string) \<Rightarrow> run_state \<Rightarrow> run_state" where
  "hash_pass sha256 s = foldl report_duplicate s (hash_groups sha256 (valid_list s))"

subsection \<open>Pass 3: slot collisions\<close>

definition slot_key :: "parsed_filename \<Rightarrow> string" where
  "slot_key parts = device parts @ ''_'' @ direction parts @ ''_'' @ tile_x parts @ ''_'' @ tile_y parts"

definition slot_groups :: "(raw_file \<times> parsed_filename) list \<Rightarrow> (string \<times> raw_file list) list" where
  "slot_groups items = foldl (\<lambda>slots (fp, parts). setdefault_append (slot_key parts) fp slots) [] items"

definition report_collision :: "run_state \<Rightarrow> string \<times> raw_file list \<Rightarrow> run_state" where
  "report_collision s item =
     (case item of (key, paths) \<Rightarrow>
        if 1 < length paths
        then s\<lparr>errors := errors s @ [SlotCollision key (map name paths)],
               stats := (stats s)\<lparr>slot_collisions := slot_collisions (stats s) + (int (length paths) - 1)\<rparr>\<rparr>
        else s)"

definition slot_pass :: "run_state \<Rightarrow> run_state" where
  "slot_pass s = foldl report_collision s (slot_groups (parsed_names s))"

subsection \<open>Pass 4: orphans of the output directory\<close>

text \<open>The loop over the list \<^verbatim>\<open>sorted(output_dir.glob("*.json"))\<close>, built before it starts.\<close>

fun orphan_loop :: "bool \<Rightarrow> string \<Rightarrow> string set \<Rightarrow> out_file list \<Rightarrow> run_state \<Rightarrow> exn + run_state" where
  "orphan_loop delete_orphans dn raw_names [] s = Inr s"
| "orphan_loop delete_orphans dn raw_names (out_fp # rest) s =
     (if out_name out_fp \<notin> raw_names
      then
        (let s1 = s\<lparr>warnings := warnings s @ [Orphan dn (out_name out_fp)],
                    stats := (stats s)\<lparr>orphans := orphans (stats s) + 1\<rparr>,
                    fs_events := fs_events s @ [OrphanFound (out_name out_fp)]\<rparr>
         in if delete_orphans
            then
              (if unlink_ok out_fp
               then orphan_loop delete_orphans dn raw_names rest
                      (s1\<lparr>out_files := filter (\<lambda>e. out_name e \<noteq> out_name out_fp) (out_files s1),
                          stats := (stats s1)\<lparr>orphans_deleted := orphans_deleted (stats s1) + 1\<rparr>,
                          fs_events := fs_events s1 @ [Unlink (out_name out_fp)]\<rparr>)
               else Inl (UnlinkException (out_name out_fp)))
            else orphan_loop delete_orphans dn raw_names rest s1)
      else orphan_loop delete_orphans dn raw_names rest s)"

definition orphan_pass :: "raw_file list \<Rightarrow> out_file dir option \<Rightarrow> bool \<Rightarrow> run_state \<Rightarrow> exn + run_state" where
  "orphan_pass json_files output_dir delete_orphans s =
     (case output_dir of
        None \<Rightarrow> Inr s
      | Some od \<Rightarrow>
          (case listing od of
             None \<Rightarrow> Inr s
           | Some es \<Rightarrow>
               orphan_loop delete_orphans (dir_name od) (set (map name json_files))
                 (sorted_glob out_name (Some es))
                 (s\<lparr>fs_events := fs_events s @ [ListOutput]\<rparr>)))"

subsection \<open>The orchestrator\<close>

definition initial_stats :: stats where
  "initial_stats =
     \<lparr>total_files = 0, valid_files = 0, bad_pattern = 0, bad_json = 0, bad_structure = 0,
      hash_dupes = 0, slot_collisions = 0, orphans = 0, orphans_deleted = 0\<rparr>"

definition initial_state :: "out_file dir option \<Rightarrow> run_state" where
  "initial_state output_dir =
     \<lparr>errors = [], warnings = [], stats = initial_stats, valid_list = [], parsed_names = [],
      out_files = (case output_dir of
                     None \<Rightarrow> []
                   | Some od \<Rightarrow> (case listing od of None \<Rightarrow> [] | Some es \<Rightarrow> es)),
      fs_events = []\<rparr>"

definition validate_raw ::
  "(bytes \<Rightarrow> string) \<Rightarrow> raw_file dir \<Rightarrow> out_file dir option \<Rightarrow> bool \<Rightarrow> exn + run_state" where
  "validate_raw sha256 raw_dir output_dir delete_orphans =
     (let json_files = sorted_glob name (listing raw_dir);
          s0 = (initial_state output_dir)
                 \<lparr>stats := initial_stats\<lparr>total_files := int (length json_files)\<rparr>\<rparr>
      in if json_files = []
         then Inr (s0\<lparr>warnings := warnings s0 @ [NoJsonFiles (dir_path raw_dir)]\<rparr>)
         else
           (case scan_files json_files s0 of
              Inl e \<Rightarrow> Inl e
            | Inr s1 \<Rightarrow>
                orphan_pass json_files output_dir delete_orphans
                  (slot_pass (hash_pass sha256
                     (s1\<lparr>stats := (stats s1)\<lparr>valid_files := int (length (valid_list s1))\<rparr>\<rparr>)))))"

subsection \<open>The command line\<close>

text \<open>
  The parsed arguments, and what \<^verbatim>\<open>main\<close> gives back: the exit code and the run whose
  report it printed, \<open>None\<close> when it printed the line on \<^verbatim>\<open>stderr\<close> only.
\<close>

record cli_args =
  raw_dir :: "raw_file dir"
  output_dir :: "out_file dir option"
  strict :: bool
  delete_orphans :: bool



section \<open>Vocabulary of the properties\<close>

text \<open>The outcome of pass 1 on one file, read off its load result.\<close>

definition structurally_valid :: "raw_file \<Rightarrow> bool" where
  "structurally_valid fp =
     (case loaded fp of Loaded doc \<Rightarrow> validate_structure doc (name fp) = None | _ \<Rightarrow> False)"

definition structure_rejected :: "raw_file \<Rightarrow> bool" where
  "structure_rejected fp =
     (case loaded fp of Loaded doc \<Rightarrow> validate_structure doc (name fp) \<noteq> None | _ \<Rightarrow> False)"

definition file_error :: "raw_file \<Rightarrow> message option" where
  "file_error fp =
     (case loaded fp of
        Loaded doc \<Rightarrow> validate_structure doc (name fp)
      | _ \<Rightarrow> Some (CannotRead (name fp)))"

text \<open>
  The structural validator as the specification words it: seven checks in a fixed
  order, the first failing one gives the message. Each check stands alone and passes
  where an earlier check has already failed.
\<close>

definition row_ok :: "nat \<Rightarrow> json \<Rightarrow> bool" where
  "row_ok m row = (case row of JArr cells \<Rightarrow> length cells = m | _ \<Rightarrow> False)"

definition check_object :: "json \<Rightarrow> string \<Rightarrow> message option" where
  "check_object doc pn = (case doc of JObj kvs \<Rightarrow> None | _ \<Rightarrow> Some (NotJsonObject pn))"

definition check_has_key :: "string \<Rightarrow> json \<Rightarrow> string \<Rightarrow> message option" where
  "check_has_key k doc pn =
     (case doc of
        JObj kvs \<Rightarrow> (case map_of kvs k of None \<Rightarrow> Some (MissingKey pn k) | Some v \<Rightarrow> None)
      | _ \<Rightarrow> None)"

definition check_is_array :: "string \<Rightarrow> json \<Rightarrow> string \<Rightarrow> message option" where
  "check_is_array k doc pn =
     (case doc of
        JObj kvs \<Rightarrow>
          (case map_of kvs k of
             Some (JArr vs) \<Rightarrow> None
           | Some v \<Rightarrow> Some (NotAnArray pn k)
           | None \<Rightarrow> None)
      | _ \<Rightarrow> None)"

definition check_schema :: "json \<Rightarrow> string \<Rightarrow> message option" where
  "check_schema doc pn =
     (case doc of
        JObj kvs \<Rightarrow>
          (case map_of kvs ''nodeFormat'' of
             Some (JArr nf) \<Rightarrow>
               if map lower_field nf = map JStr EXPECTED_FIELDS then None
               else Some (SchemaMismatch pn nf)
           | _ \<Rightarrow> None)
      | _ \<Rightarrow> None)"

definition row_message :: "string \<Rightarrow> nat \<Rightarrow> nat \<times> json \<Rightarrow> message" where
  "row_message pn m ir =
     (case snd ir of
        JArr cells \<Rightarrow> NodeWrongLength pn (fst ir) (length cells) m
      | _ \<Rightarrow> NodeNotArray pn (fst ir))"

definition check_rows :: "json \<Rightarrow> string \<Rightarrow> message option" where
  "check_rows doc pn =
     (case doc of
        JObj kvs \<Rightarrow>
          (case (map_of kvs ''nodeFormat'', map_of kvs ''nodes'') of
             (Some (JArr nf), Some (JArr nodes)) \<Rightarrow>
               map_option (row_message pn (length nf))
                 (find (\<lambda>ir. \<not> row_ok (length nf) (snd ir)) (zip [0..<length nodes] nodes))
           | _ \<Rightarrow> None)
      | _ \<Rightarrow> None)"

fun first_failure :: "(json \<Rightarrow> string \<Rightarrow> message option) list \<Rightarrow> json \<Rightarrow> string \<Rightarrow> message option" where
  "first_failure [] doc pn = None"
| "first_failure (c # cs) doc pn =
     (case c doc pn of Some e \<Rightarrow> Some e | None \<Rightarrow> first_failure cs doc pn)"

definition spec_checks :: "(json \<Rightarrow> string \<Rightarrow> message option) list" where
  "spec_checks =
     [check_object, check_has_key ''nodeFormat'', check_has_key ''nodes'',
      check_is_array ''nodeFormat'', check_is_array ''nodes'', check_schema, check_rows]"

text \<open>
  What the passes compute, as functions of the sorted list of \<^verbatim>\<open>*.json\<close> files:
  the files with a name off the pattern, the pairs of the parsed-name dictionary, the
  groups that get reported and the orphans of the output directory.
\<close>

definition bad_name :: "raw_file \<Rightarrow> bool" where
  "bad_name fp = (parse_filename (name fp) = None)"

definition parsed_pairs :: "raw_file list \<Rightarrow> (raw_file \<times> parsed_filename) list" where
  "parsed_pairs fps =
     List.map_filter (\<lambda>fp. map_option (Pair fp) (parse_filename (name fp)))
       (filter structurally_valid fps)"

definition is_cluster :: "'k \<times> 'v list \<Rightarrow> bool" where
  "is_cluster g = (1 < length (snd g))"

definition orphan_names :: "string set \<Rightarrow> out_file list \<Rightarrow> string list" where
  "orphan_names raw_names outs = filter (\<lambda>n. n \<notin> raw_names) (map out_name outs)"

definition orphan_events :: "bool \<Rightarrow> string \<Rightarrow> fs_event list" where
  "orphan_events del n = OrphanFound n # (if del then [Unlink n] else [])"

definition json_files_of :: "raw_file dir \<Rightarrow> raw_file list" where
  "json_files_of rd = sorted_glob name (listing rd)"

definition output_listing :: "out_file dir option \<Rightarrow> out_file list option" where
  "output_listing od = (case od of None \<Rightarrow> None | Some d \<Rightarrow> listing d)"

definition output_name :: "out_file dir option \<Rightarrow> string" where
  "output_name od = (case od of None \<Rightarrow> [] | Some d \<Rightarrow> dir_name d)"

definition run_orphans :: "raw_file list \<Rightarrow> out_file dir option \<Rightarrow> string list" where
  "run_orphans fps od =
     (case output_listing od of
        None \<Rightarrow> []
      | Some es \<Rightarrow> orphan_names (set (map name fps)) (sorted_glob out_name (Some es)))"

definition duplicate_message :: "string \<times> raw_file list \<Rightarrow> message" where
  "duplicate_message g = ContentHashDuplicate (map name (snd g))"

definition collision_message :: "string \<times> raw_file list \<Rightarrow> message" where
  "collision_message g = SlotCollision (fst g) (map name (snd g))"

definition extra_copies :: "(string \<times> raw_file list) list \<Rightarrow> int" where
  "extra_copies G = sum_list (map (\<lambda>g. int (length (snd g)) - 1) (filter is_cluster G))"

definition parsed_dict :: "raw_file list \<Rightarrow> (raw_file \<times> parsed_filename) list" where
  "parsed_dict fps = foldl (\<lambda>d q. dict_set (fst q) (snd q) d) [] (parsed_pairs fps)"

section \<open>Example inputs\<close>

text \<open>A stand-in digest, one character per byte, for runs on concrete files.\<close>

definition example_digest :: "bytes \<Rightarrow> string" where
  "example_digest bs = map (\<lambda>b. if b = 0 then CHR ''0'' else CHR ''1'') bs"

definition example_doc :: "int \<Rightarrow> json" where
  "example_doc trips =
     JObj [(''nodeFormat'',
            JArr [JStr ''id'', JStr ''parentId'', JStr ''trips'', JStr ''frc'', JStr ''geometry'',
                  JStr ''processingFailures'', JStr ''privacyTrims'']),
           (''nodes'',
            JArr [JArr [JInt 0, JNull, JInt trips, JInt 3, JArr [], JInt 0, JInt 0]])]"

definition example_file :: "string \<Rightarrow> 8 word \<Rightarrow> raw_file" where
  "example_file n b =
     \<lparr>name = n, content = [b], loaded = Loaded (example_doc (if b = 0 then 100 else 200))\<rparr>"

definition example_raw :: "raw_file list \<Rightarrow> raw_file dir" where
  "example_raw fps = \<lparr>dir_path = ''./raw'', dir_name = ''raw'', listing = Some fps\<rparr>"

definition example_output :: "string list \<Rightarrow> out_file dir" where
  "example_output ns =
     \<lparr>dir_path = ''./output'', dir_name = ''output'',
      listing = Some (map (\<lambda>n. \<lparr>out_name = n, unlink_ok = True\<rparr>) ns)\<rparr>"

lemmas example_defs =
  example_digest_def example_doc_def example_file_def example_raw_def example_output_def

lemmas regex_defs =
  parse_filename_def re_digits_def re_literal_def re_alt_def re_dollar_def is_digit_def
  str_lower_def lower_char_def

text \<open>
  A raw directory with two names that differ in the case of the direction only, a
  byte-identical copy under a name off the pattern, a document of the wrong shape, an
  unreadable file and a file that is no \<^verbatim>\<open>*.json\<close>; an output directory with two
  orphans, and a run over both that deletes orphans.
\<close>

definition raw_upper :: raw_file where
  "raw_upper = example_file ''1_INCOMING_0_0.json'' 1"

definition raw_lower :: raw_file where
  "raw_lower = example_file ''1_incoming_0_0.json'' 0"

definition raw_wrong :: raw_file where
  "raw_wrong = \<lparr>name = ''2_outgoing_0_0.json'', content = [1, 1],
                 loaded = Loaded (JObj [(''wrong'', JBool True)])\<rparr>"

definition raw_broken :: raw_file where
  "raw_broken = \<lparr>name = ''bad.json'', content = [], loaded = LoadFailed\<rparr>"

definition raw_copy :: raw_file where
  "raw_copy = example_file ''copy.json'' 0"

definition raw_notes :: raw_file where
  "raw_notes = example_file ''notes.txt'' 1"

definition example_files :: "raw_file list" where
  "example_files = [raw_copy, raw_lower, raw_wrong, raw_upper, raw_broken, raw_notes]"

definition example_out :: "out_file dir" where
  "example_out =
     example_output [''9_incoming_0_0.json'', ''bad.json'', ''readme.txt'', ''8_incoming_0_0.json'']"

definition example_run :: "exn + run_state" where
  "example_run = validate_raw example_digest (example_raw example_files) (Some example_out) True"

lemmas raw_defs = raw_upper_def raw_lower_def raw_wrong_def raw_broken_def raw_copy_def
  raw_notes_def example_file_def



section \<open>The filename parser\<close>

lemma lower_char_underscore: "lower_char c = CHR ''_'' \<longleftrightarrow> c = CHR ''_''"
  by (simp add: lower_char_def split: if_splits)

lemma not_digit_underscore: "\<not> is_digit (CHR ''_'')"
  by (simp add: is_digit_def)

lemma re_digitsD:
  "re_digits s = Some (d, r) \<Longrightarrow> s = d @ r \<and> d \<noteq> [] \<and> (\<forall>c\<in>set d. is_digit c)"
  by (auto simp: re_digits_def split: if_splits dest: set_takeWhileD)

lemma re_digits_append:
  "d \<noteq> [] \<Longrightarrow> \<forall>c\<in>set d. is_digit c \<Longrightarrow> r = [] \<or> \<not> is_digit (hd r)
     \<Longrightarrow> re_digits (d @ r) = Some (d, r)"
  by (cases r) (auto simp: re_digits_def takeWhile_append2 dropWhile_append2 takeWhile_eq_all_conv[THEN iffD2] dropWhile_eq_Nil_conv[THEN iffD2])

lemma re_literalD:
  "re_literal pat s = Some (t, r) \<Longrightarrow> s = t @ r \<and> length t = length pat \<and> str_lower t = str_lower pat"
  by (auto simp: re_literal_def split: if_splits)

lemma re_literal_append:
  "length t = length pat \<Longrightarrow> str_lower t = str_lower pat \<Longrightarrow> re_literal pat (t @ r) = Some (t, r)"
  by (simp add: re_literal_def)

lemma underscore_literal: "length t = length ''_'' \<Longrightarrow> str_lower t = str_lower ''_'' \<Longrightarrow> t = ''_''"
proof -
  assume a: "length t = length ''_''" "str_lower t = str_lower ''_''"
  have e: "str_lower ''_'' = ''_''" by (simp add: str_lower_def lower_char_def)
  from a(1) obtain c where t: "t = [c]" by (cases t) auto
  with a(2) e have "lower_char c = CHR ''_''" by (simp add: str_lower_def)
  then show ?thesis using t by (simp add: lower_char_underscore)
qed


lemma parse_filename_stages:
  "parse_filename n = Some p \<longleftrightarrow>
     (\<exists>dev s1 u1 s2 dir s3 u2 s4 xs s5 u3 s6 ys s7 ext s8.
        re_digits n = Some (dev, s1) \<and> re_literal ''_'' s1 = Some (u1, s2) \<and>
        re_alt (re_literal ''incoming'') (re_literal ''outgoing'') s2 = Some (dir, s3) \<and>
        re_literal ''_'' s3 = Some (u2, s4) \<and> re_digits s4 = Some (xs, s5) \<and>
        re_literal ''_'' s5 = Some (u3, s6) \<and> re_digits s6 = Some (ys, s7) \<and>
        re_literal ''.json'' s7 = Some (ext, s8) \<and> re_dollar s8 \<and>
        p = \<lparr>device = dev, direction = str_lower dir, tile_x = xs, tile_y = ys\<rparr>)"
  unfolding parse_filename_def
  by (auto simp: bind_eq_Some_conv split: if_splits) blast

lemma str_lower_incoming: "str_lower ''incoming'' = ''incoming''"
  by (simp add: str_lower_def lower_char_def)

lemma str_lower_outgoing: "str_lower ''outgoing'' = ''outgoing''"
  by (simp add: str_lower_def lower_char_def)

lemma str_lower_json: "str_lower ''.json'' = ''.json''"
  by (simp add: str_lower_def lower_char_def)

lemma length_str_lower: "length (str_lower s) = length s"
  by (simp add: str_lower_def)

lemma re_altD:
  "re_alt (re_literal ''incoming'') (re_literal ''outgoing'') s = Some (t, r) \<Longrightarrow>
     s = t @ r \<and> str_lower t \<in> {''incoming'', ''outgoing''}"
  by (auto simp: re_alt_def str_lower_incoming str_lower_outgoing split: option.splits dest!: re_literalD)

lemma re_alt_append:
  assumes "str_lower t \<in> {''incoming'', ''outgoing''}"
  shows "re_alt (re_literal ''incoming'') (re_literal ''outgoing'') (t @ r) = Some (t, r)"
proof -
  from assms have "length (str_lower t) = 8" by auto
  then have len: "length t = 8" by (simp add: length_str_lower)
  show ?thesis
  proof (cases "str_lower t = ''incoming''")
    case True
    then have "re_literal ''incoming'' (t @ r) = Some (t, r)"
      using len by (intro re_literal_append) (simp_all add: str_lower_incoming)
    then show ?thesis by (simp add: re_alt_def)
  next
    case False
    with assms have o: "str_lower t = ''outgoing''" by simp
    have "re_literal ''incoming'' (t @ r) = None"
      using len o by (simp add: re_literal_def str_lower_incoming)
    moreover have "re_literal ''outgoing'' (t @ r) = Some (t, r)"
      using len o by (intro re_literal_append) (simp_all add: str_lower_outgoing)
    ultimately show ?thesis by (simp add: re_alt_def)
  qed
qed

lemma parse_filename_pattern_aux:
  assumes "n = [] \<or> last n \<noteq> CHR 0x0A"
  shows "parse_filename n = Some p \<longleftrightarrow>
     (\<exists>dev dir xs ys ext.
        n = dev @ ''_'' @ dir @ ''_'' @ xs @ ''_'' @ ys @ ext \<and>
        dev \<noteq> [] \<and> (\<forall>c\<in>set dev. is_digit c) \<and>
        xs \<noteq> [] \<and> (\<forall>c\<in>set xs. is_digit c) \<and>
        ys \<noteq> [] \<and> (\<forall>c\<in>set ys. is_digit c) \<and>
        str_lower dir \<in> {''incoming'', ''outgoing''} \<and>
        length ext = 5 \<and> str_lower ext = ''.json'' \<and>
        p = \<lparr>device = dev, direction = str_lower dir, tile_x = xs, tile_y = ys\<rparr>)"
    (is "?L \<longleftrightarrow> ?R")
proof
  assume ?L
  then obtain dev s1 u1 s2 dir s3 u2 s4 xs s5 u3 s6 ys s7 ext s8 where
    st: "re_digits n = Some (dev, s1)" "re_literal ''_'' s1 = Some (u1, s2)"
        "re_alt (re_literal ''incoming'') (re_literal ''outgoing'') s2 = Some (dir, s3)"
        "re_literal ''_'' s3 = Some (u2, s4)" "re_digits s4 = Some (xs, s5)"
        "re_literal ''_'' s5 = Some (u3, s6)" "re_digits s6 = Some (ys, s7)"
        "re_literal ''.json'' s7 = Some (ext, s8)" "re_dollar s8"
        "p = \<lparr>device = dev, direction = str_lower dir, tile_x = xs, tile_y = ys\<rparr>"
    unfolding parse_filename_stages by blast
  note d1 = re_digitsD[OF st(1)] and l1 = re_literalD[OF st(2)] and a = re_altD[OF st(3)]
    and l2 = re_literalD[OF st(4)] and d2 = re_digitsD[OF st(5)] and l3 = re_literalD[OF st(6)]
    and d3 = re_digitsD[OF st(7)] and l4 = re_literalD[OF st(8)]
  have u: "u1 = ''_''" "u2 = ''_''" "u3 = ''_''"
    using l1 l2 l3 by (auto intro: underscore_literal)
  have nm: "n = dev @ ''_'' @ dir @ ''_'' @ xs @ ''_'' @ ys @ ext @ s8"
    using d1 l1 a l2 d2 l3 d3 l4 u by simp
  have "s8 = []"
  proof (rule ccontr)
    assume "s8 \<noteq> []"
    with st(9) have s8: "s8 = [CHR 0x0A]" by (simp add: re_dollar_def)
    have "last n = CHR 0x0A" unfolding nm s8 by simp
    moreover have "n \<noteq> []" using nm d1 by simp
    ultimately show False using assms by simp
  qed
  with nm have "n = dev @ ''_'' @ dir @ ''_'' @ xs @ ''_'' @ ys @ ext" by simp
  moreover have "length ext = 5" "str_lower ext = ''.json''"
    using l4 by (simp_all add: str_lower_json)
  ultimately show ?R using d1 d2 d3 a st(10) by blast
next
  assume ?R
  then obtain dev dir xs ys ext where
    nm: "n = dev @ ''_'' @ dir @ ''_'' @ xs @ ''_'' @ ys @ ext" and
    dg: "dev \<noteq> []" "\<forall>c\<in>set dev. is_digit c" "xs \<noteq> []" "\<forall>c\<in>set xs. is_digit c"
        "ys \<noteq> []" "\<forall>c\<in>set ys. is_digit c" and
    dr: "str_lower dir \<in> {''incoming'', ''outgoing''}" and
    ex: "length ext = 5" "str_lower ext = ''.json''" and
    p: "p = \<lparr>device = dev, direction = str_lower dir, tile_x = xs, tile_y = ys\<rparr>"
    by blast
  have nd: "\<not> is_digit (hd ext)"
  proof -
    from ex obtain c cs where e: "ext = c # cs" by (cases ext) auto
    with ex(2) have "lower_char c = CHR ''.''" by (simp add: str_lower_def)
    then have "\<not> is_digit c" by (auto simp: is_digit_def lower_char_def)
    with e show ?thesis by simp
  qed
  have 1: "re_digits n = Some (dev, ''_'' @ dir @ ''_'' @ xs @ ''_'' @ ys @ ext)"
    unfolding nm using dg by (intro re_digits_append) (simp_all add: not_digit_underscore)
  have 2: "re_literal ''_'' (''_'' @ dir @ ''_'' @ xs @ ''_'' @ ys @ ext)
             = Some (''_'', dir @ ''_'' @ xs @ ''_'' @ ys @ ext)"
    by (intro re_literal_append) simp_all
  have 3: "re_alt (re_literal ''incoming'') (re_literal ''outgoing'') (dir @ ''_'' @ xs @ ''_'' @ ys @ ext)
             = Some (dir, ''_'' @ xs @ ''_'' @ ys @ ext)"
    using dr by (rule re_alt_append)
  have 4: "re_literal ''_'' (''_'' @ xs @ ''_'' @ ys @ ext) = Some (''_'', xs @ ''_'' @ ys @ ext)"
    by (intro re_literal_append) simp_all
  have 5: "re_digits (xs @ ''_'' @ ys @ ext) = Some (xs, ''_'' @ ys @ ext)"
    using dg by (intro re_digits_append) (simp_all add: not_digit_underscore)
  have 6: "re_literal ''_'' (''_'' @ ys @ ext) = Some (''_'', ys @ ext)"
    by (intro re_literal_append) simp_all
  have 7: "re_digits (ys @ ext) = Some (ys, ext)"
    using dg nd by (intro re_digits_append) simp_all
  have 8: "re_literal ''.json'' ext = Some (ext, [])"
    using re_literal_append[of ext "''.json''" "[]"] ex by (simp add: str_lower_json)
  show ?L
    unfolding parse_filename_stages using 1 2 3 4 5 6 7 8 p by (simp add: re_dollar_def)
qed


text \<open>
  C4, as the code has it, for names of characters below U+0100 (one \<^typ>\<open>char\<close> each;
  beyond them \<^verbatim>\<open>\d\<close> and \<^verbatim>\<open>re.IGNORECASE\<close> take further characters, which this
  theory does not cover). Such a name that does not end in a newline parses exactly when
  it is one or more digits, \<open>_\<close>, \<open>incoming\<close> or \<open>outgoing\<close>, \<open>_\<close>, digits, \<open>_\<close>,
  digits and \<open>.json\<close>, where both the direction and the suffix \<open>.json\<close> are compared
  without regard to case; the result holds the three digit strings as they stand
  (leading zeros kept) and the direction in lower case. Every other such name gives
  \<open>None\<close>, never a record with some fields only.
\<close>

theorem parse_filename_pattern:
  assumes "n = [] \<or> last n \<noteq> CHR 0x0A"
  shows "parse_filename n = Some p \<longleftrightarrow>
     (\<exists>dev dir xs ys ext.
        n = dev @ ''_'' @ dir @ ''_'' @ xs @ ''_'' @ ys @ ext \<and>
        dev \<noteq> [] \<and> (\<forall>c\<in>set dev. is_digit c) \<and>
        xs \<noteq> [] \<and> (\<forall>c\<in>set xs. is_digit c) \<and>
        ys \<noteq> [] \<and> (\<forall>c\<in>set ys. is_digit c) \<and>
        str_lower dir \<in> {''incoming'', ''outgoing''} \<and>
        length ext = 5 \<and> str_lower ext = ''.json'' \<and>
        p = \<lparr>device = dev, direction = str_lower dir, tile_x = xs, tile_y = ys\<rparr>)"
  using assms by (rule parse_filename_pattern_aux)

theorem parse_filename_pattern_witness:
  "(''12_Outgoing_03_4.json'' = [] \<or> last ''12_Outgoing_03_4.json'' \<noteq> CHR 0x0A) \<and>
   (\<exists>dev dir xs ys ext.
      ''12_Outgoing_03_4.json'' = dev @ ''_'' @ dir @ ''_'' @ xs @ ''_'' @ ys @ ext \<and>
      dev \<noteq> [] \<and> (\<forall>c\<in>set dev. is_digit c) \<and>
      xs \<noteq> [] \<and> (\<forall>c\<in>set xs. is_digit c) \<and>
      ys \<noteq> [] \<and> (\<forall>c\<in>set ys. is_digit c) \<and>
      str_lower dir \<in> {''incoming'', ''outgoing''} \<and>
      length ext = 5 \<and> str_lower ext = ''.json'' \<and>
      \<lparr>device = ''12'', direction = ''outgoing'', tile_x = ''03'', tile_y = ''4''\<rparr>
        = \<lparr>device = dev, direction = str_lower dir, tile_x = xs, tile_y = ys\<rparr>)"
proof -
  have h: "''12_Outgoing_03_4.json'' = [] \<or> last ''12_Outgoing_03_4.json'' \<noteq> CHR 0x0A"
    by simp
  have e: "parse_filename ''12_Outgoing_03_4.json''
             = Some \<lparr>device = ''12'', direction = ''outgoing'', tile_x = ''03'', tile_y = ''4''\<rparr>"
    by (simp add: regex_defs)
  from parse_filename_pattern [OF h, THEN iffD1, OF e] h show ?thesis by blast
qed

text \<open>
  The claim as written fails on a name whose extension is not \<open>.json\<close>: the flag
  \<^verbatim>\<open>re.IGNORECASE\<close> covers the suffix too.
\<close>

theorem parse_filename_uppercase_extension:
  "parse_filename ''1_incoming_0_0.JSON''
     = Some \<lparr>device = ''1'', direction = ''incoming'', tile_x = ''0'', tile_y = ''0''\<rparr>
   \<and> \<not> glob_json ''1_incoming_0_0.JSON''"
  by (simp add: regex_defs glob_json_def)

text \<open>A name with a newline after \<open>.json\<close> parses as well: \<^verbatim>\<open>$\<close> matches before it.\<close>

lemma parse_filename_trailing_newline:
  "parse_filename (''1_incoming_0_0.json'' @ [CHR 0x0A])
     = Some \<lparr>device = ''1'', direction = ''incoming'', tile_x = ''0'', tile_y = ''0''\<rparr>"
  by (simp add: regex_defs)

section \<open>The structural validator\<close>

lemma check_nodes_find:
  "check_nodes pn m i nodes =
     map_option (row_message pn m)
       (find (\<lambda>ir. \<not> row_ok m (snd ir)) (zip [i..<i + length nodes] nodes))"
proof (induction nodes arbitrary: i)
  case Nil
  then show ?case by simp
next
  case (Cons node rest)
  have z: "zip [i..<i + length (node # rest)] (node # rest)
             = (i, node) # zip [Suc i..<Suc i + length rest] rest"
    by (subst upt_rec) simp
  show ?case
    unfolding z using Cons.IH[of "Suc i"]
    by (cases node) (simp_all add: row_ok_def row_message_def)
qed

lemma check_nodes_None:
  "check_nodes pn m i nodes = None \<longleftrightarrow> (\<forall>row\<in>set nodes. row_ok m row)"
  by (induction nodes arbitrary: i) (auto simp: row_ok_def split: json.splits)

lemma validate_structure_first_failure:
  "validate_structure doc pn = first_failure spec_checks doc pn"
  by (simp add: validate_structure_def spec_checks_def check_object_def check_has_key_def
      check_is_array_def check_schema_def check_rows_def check_nodes_find
      split: json.splits option.splits)

lemma validate_structure_None:
  "validate_structure doc pn = None \<longleftrightarrow>
     (\<exists>kvs nf nodes.
        doc = JObj kvs \<and> map_of kvs ''nodeFormat'' = Some (JArr nf) \<and>
        map_of kvs ''nodes'' = Some (JArr nodes) \<and>
        map lower_field nf = map JStr EXPECTED_FIELDS \<and>
        (\<forall>row\<in>set nodes. row_ok (length nf) row))"
  by (auto simp: validate_structure_def check_nodes_None split: json.splits option.splits)

lemma lower_field_schema:
  "map lower_field nf = map JStr fs \<longleftrightarrow> (\<exists>gs. nf = map JStr gs \<and> map str_lower gs = fs)"
proof (induction nf arbitrary: fs)
  case Nil
  then show ?case by auto
next
  case (Cons v nf)
  show ?case
  proof (cases fs)
    case Nil
    then show ?thesis by auto
  next
    case (Cons f fs')
    have "lower_field v = JStr f \<longleftrightarrow> (\<exists>g. v = JStr g \<and> str_lower g = f)"
      by (cases v) auto
    then show ?thesis
      unfolding Cons using Cons.IH[of fs']
      by (auto simp: map_eq_Cons_conv Cons_eq_map_conv) 
  qed
qed

lemma check_nodes_Some:
  assumes "check_nodes pn m 0 nodes = Some e"
  shows "\<exists>i<length nodes. (\<forall>j<i. row_ok m (nodes ! j)) \<and> \<not> row_ok m (nodes ! i) \<and>
           e = row_message pn m (i, nodes ! i)"
proof -
  from assms obtain ir where
    f: "find (\<lambda>ir. \<not> row_ok m (snd ir)) (zip [0..<length nodes] nodes) = Some ir"
    and e: "e = row_message pn m ir"
    using check_nodes_find[of pn m 0 nodes] by auto
  from f obtain k where k: "k < length (zip [0..<length nodes] nodes)"
    "\<not> row_ok m (snd (zip [0..<length nodes] nodes ! k))"
    "ir = zip [0..<length nodes] nodes ! k"
    "\<forall>j<k. row_ok m (snd (zip [0..<length nodes] nodes ! j))"
    unfolding find_Some_iff by auto
  from k(1) have kl: "k < length nodes" by simp
  have "ir = (k, nodes ! k)" using k(3) kl by simp
  moreover have "\<forall>j<k. row_ok m (nodes ! j)" using k(4) kl by simp
  moreover have "\<not> row_ok m (nodes ! k)" using k(2) kl by simp
  ultimately show ?thesis using kl e by blast
qed


lemma row_ok_iff: "row_ok m row \<longleftrightarrow> (\<exists>cells. row = JArr cells \<and> length cells = m)"
  by (cases row) (simp_all add: row_ok_def)

lemma validate_structure_messages:
  "validate_structure doc pn = Some e \<Longrightarrow>
     e = NotJsonObject pn \<or> e = MissingKey pn ''nodeFormat'' \<or> e = MissingKey pn ''nodes'' \<or>
     e = NotAnArray pn ''nodeFormat'' \<or> e = NotAnArray pn ''nodes'' \<or>
     (\<exists>nf. e = SchemaMismatch pn nf) \<or> (\<exists>i. e = NodeNotArray pn i) \<or>
     (\<exists>i l m. e = NodeWrongLength pn i l m)"
  by (auto simp: validate_structure_def row_message_def
      split: json.splits option.splits if_splits dest!: check_nodes_Some)

text \<open>
  C3. \<open>validate_structure\<close> returns \<open>None\<close> exactly for an object that has both keys,
  both of them arrays, a \<open>nodeFormat\<close> of strings that lower-cased is the canonical
  schema in its order, and rows that are arrays as long as \<open>nodeFormat\<close>. It is the
  first failure of the seven checks taken in their order. Every message names the file
  and the key, or the index of the first offending row.
\<close>

theorem validate_structure_checks:
  "(validate_structure doc pn = None \<longleftrightarrow>
      (\<exists>kvs nf nodes.
         doc = JObj kvs \<and> map_of kvs ''nodeFormat'' = Some (JArr nf) \<and>
         map_of kvs ''nodes'' = Some (JArr nodes) \<and>
         (\<exists>gs. nf = map JStr gs \<and> map str_lower gs = EXPECTED_FIELDS) \<and>
         (\<forall>row\<in>set nodes. \<exists>cells. row = JArr cells \<and> length cells = length nf))) \<and>
   validate_structure doc pn = first_failure spec_checks doc pn \<and>
   (\<forall>e. validate_structure doc pn = Some e \<longrightarrow>
      e = NotJsonObject pn \<or> e = MissingKey pn ''nodeFormat'' \<or> e = MissingKey pn ''nodes'' \<or>
      e = NotAnArray pn ''nodeFormat'' \<or> e = NotAnArray pn ''nodes'' \<or>
      (\<exists>nf. e = SchemaMismatch pn nf) \<or> (\<exists>i. e = NodeNotArray pn i) \<or>
      (\<exists>i l m. e = NodeWrongLength pn i l m)) \<and>
   (\<forall>kvs nf nodes e.
      doc = JObj kvs \<and> map_of kvs ''nodeFormat'' = Some (JArr nf) \<and>
      map_of kvs ''nodes'' = Some (JArr nodes) \<and>
      map lower_field nf = map JStr EXPECTED_FIELDS \<and>
      validate_structure doc pn = Some e \<longrightarrow>
      (\<exists>i<length nodes.
         (\<forall>j<i. row_ok (length nf) (nodes ! j)) \<and> \<not> row_ok (length nf) (nodes ! i) \<and>
         e = (case nodes ! i of
                JArr cells \<Rightarrow> NodeWrongLength pn i (length cells) (length nf)
              | _ \<Rightarrow> NodeNotArray pn i)))"
proof (intro conjI allI impI)
  show "validate_structure doc pn = None \<longleftrightarrow>
      (\<exists>kvs nf nodes.
         doc = JObj kvs \<and> map_of kvs ''nodeFormat'' = Some (JArr nf) \<and>
         map_of kvs ''nodes'' = Some (JArr nodes) \<and>
         (\<exists>gs. nf = map JStr gs \<and> map str_lower gs = EXPECTED_FIELDS) \<and>
         (\<forall>row\<in>set nodes. \<exists>cells. row = JArr cells \<and> length cells = length nf))"
    unfolding validate_structure_None lower_field_schema row_ok_iff ..
  show "validate_structure doc pn = first_failure spec_checks doc pn"
    by (rule validate_structure_first_failure)
next
  fix e assume "validate_structure doc pn = Some e"
  then show "e = NotJsonObject pn \<or> e = MissingKey pn ''nodeFormat'' \<or> e = MissingKey pn ''nodes'' \<or>
      e = NotAnArray pn ''nodeFormat'' \<or> e = NotAnArray pn ''nodes'' \<or>
      (\<exists>nf. e = SchemaMismatch pn nf) \<or> (\<exists>i. e = NodeNotArray pn i) \<or>
      (\<exists>i l m. e = NodeWrongLength pn i l m)"
    by (rule validate_structure_messages)
next
  fix kvs nf nodes e
  assume a: "doc = JObj kvs \<and> map_of kvs ''nodeFormat'' = Some (JArr nf) \<and>
      map_of kvs ''nodes'' = Some (JArr nodes) \<and>
      map lower_field nf = map JStr EXPECTED_FIELDS \<and>
      validate_structure doc pn = Some e"
  then have "check_nodes pn (length nf) 0 nodes = Some e"
    by (auto simp: validate_structure_def)
  from check_nodes_Some[OF this]
  show "\<exists>i<length nodes.
         (\<forall>j<i. row_ok (length nf) (nodes ! j)) \<and> \<not> row_ok (length nf) (nodes ! i) \<and>
         e = (case nodes ! i of
                JArr cells \<Rightarrow> NodeWrongLength pn i (length cells) (length nf)
              | _ \<Rightarrow> NodeNotArray pn i)"
    by (simp add: row_message_def cong: json.case_cong)
qed

theorem validate_structure_checks_witness:
  "validate_structure (example_doc 100) ''111_incoming_0_0.json'' = None \<and>
   (\<exists>kvs nf nodes.
      example_doc 100 = JObj kvs \<and> map_of kvs ''nodeFormat'' = Some (JArr nf) \<and>
      map_of kvs ''nodes'' = Some (JArr nodes) \<and>
      (\<exists>gs. nf = map JStr gs \<and> map str_lower gs = EXPECTED_FIELDS) \<and>
      (\<forall>row\<in>set nodes. \<exists>cells. row = JArr cells \<and> length cells = length nf)) \<and>
   first_failure spec_checks (JObj [(''wrong'', JBool True)]) ''f.json''
     = Some (MissingKey ''f.json'' ''nodeFormat'')"
proof -
  have e: "validate_structure (example_doc 100) ''111_incoming_0_0.json'' = None"
    by (simp add: validate_structure_def example_doc_def EXPECTED_FIELDS_def str_lower_def
        lower_char_def)
  have f: "validate_structure (JObj [(''wrong'', JBool True)]) ''f.json''
             = Some (MissingKey ''f.json'' ''nodeFormat'')"
    by (simp add: validate_structure_def)
  from validate_structure_checks [of "example_doc 100" "''111_incoming_0_0.json''",
      THEN conjunct1, THEN iffD1, OF e]
    validate_structure_checks [of "JObj [(''wrong'', JBool True)]" "''f.json''",
      THEN conjunct2, THEN conjunct1]
    e f
  show ?thesis by simp
qed

section \<open>The passes of the orchestrator\<close>

lemma scan_file_Inr:
  assumes "scan_file fp s = Inr s'"
  shows "s' = s\<lparr>errors := errors s @ List.map_filter file_error [fp],
                warnings := warnings s @ map (\<lambda>f. BadPattern (name f)) (filter bad_name [fp]),
                stats := (stats s)\<lparr>bad_pattern := bad_pattern (stats s) + int (length (filter bad_name [fp])),
                                  bad_json := bad_json (stats s) + int (length (filter (\<lambda>f. loaded f = LoadFailed) [fp])),
                                  bad_structure := bad_structure (stats s) + int (length (filter structure_rejected [fp]))\<rparr>,
                valid_list := valid_list s @ filter structurally_valid [fp],
                parsed_names := foldl (\<lambda>d q. dict_set (fst q) (snd q) d) (parsed_names s) (parsed_pairs [fp])\<rparr>"
    and "loaded fp \<noteq> LoadRaised"
  using assms
  by (auto simp: scan_file_def Let_def map_filter_simps file_error_def bad_name_def
      structure_rejected_def structurally_valid_def parsed_pairs_def
      split: load_result.splits option.splits if_splits)


lemma scan_files_Inr:
  "scan_files fps s = Inr s' \<Longrightarrow>
     s' = s\<lparr>errors := errors s @ List.map_filter file_error fps,
            warnings := warnings s @ map (\<lambda>f. BadPattern (name f)) (filter bad_name fps),
            stats := (stats s)\<lparr>bad_pattern := bad_pattern (stats s) + int (length (filter bad_name fps)),
                              bad_json := bad_json (stats s) + int (length (filter (\<lambda>f. loaded f = LoadFailed) fps)),
                              bad_structure := bad_structure (stats s) + int (length (filter structure_rejected fps))\<rparr>,
            valid_list := valid_list s @ filter structurally_valid fps,
            parsed_names := foldl (\<lambda>d q. dict_set (fst q) (snd q) d) (parsed_names s) (parsed_pairs fps)\<rparr>"
proof (induction fps arbitrary: s)
  case Nil
  then show ?case by (simp add: map_filter_simps parsed_pairs_def)
next
  case (Cons fp rest)
  from Cons.prems obtain s1 where s1: "scan_file fp s = Inr s1" and r: "scan_files rest s1 = Inr s'"
    by (auto split: sum.splits)
  have pp: "parsed_pairs (fp # rest) = parsed_pairs [fp] @ parsed_pairs rest"
    by (simp add: parsed_pairs_def map_filter_def)
  show ?case
    unfolding Cons.IH[OF r] scan_file_Inr(1)[OF s1] pp
    by (simp add: map_filter_def)
qed

lemma scan_files_no_raise:
  "scan_files fps s = Inr s' \<Longrightarrow> \<forall>fp\<in>set fps. loaded fp \<noteq> LoadRaised"
  by (induction fps arbitrary: s) (auto split: sum.splits dest: scan_file_Inr(2))

lemma scan_file_returns:
  "loaded fp \<noteq> LoadRaised \<Longrightarrow> \<exists>s'. scan_file fp s = Inr s'"
  by (auto simp: scan_file_def Let_def split: load_result.splits option.splits)

lemma scan_files_returns:
  "\<forall>fp\<in>set fps. loaded fp \<noteq> LoadRaised \<Longrightarrow> \<exists>s'. scan_files fps s = Inr s'"
proof (induction fps arbitrary: s)
  case Nil
  then show ?case by simp
next
  case (Cons fp rest)
  then obtain s1 where "scan_file fp s = Inr s1" using scan_file_returns[of fp s] by auto
  with Cons show ?case by simp
qed


lemma setdefault_append_keys:
  "map fst (setdefault_append k v d) = (if k \<in> fst ` set d then map fst d else map fst d @ [k])"
  by (induction d) force+

lemma map_of_setdefault_append:
  "map_of (setdefault_append k v d) k' =
     (if k' = k then Some ((case map_of d k of None \<Rightarrow> [] | Some vs \<Rightarrow> vs) @ [v])
      else map_of d k')"
  by (induction d) auto

lemma group_fold_distinct:
  "distinct (map fst d) \<Longrightarrow>
     distinct (map fst (foldl (\<lambda>d x. setdefault_append (key x) (val x) d) d xs))"
  by (induction xs arbitrary: d) (simp_all add: setdefault_append_keys)

lemma group_fold_map_of:
  "map_of (foldl (\<lambda>d x. setdefault_append (key x) (val x) d) d xs) k =
     (if map_of d k = None \<and> k \<notin> key ` set xs then None
      else Some ((case map_of d k of None \<Rightarrow> [] | Some vs \<Rightarrow> vs)
                 @ map val (filter (\<lambda>x. key x = k) xs)))"
proof (induction xs arbitrary: d)
  case Nil
  then show ?case by (auto split: option.splits)
next
  case (Cons x xs)
  show ?case
    unfolding foldl_Cons Cons.IH
    by (auto simp: map_of_setdefault_append split: option.splits)
qed

lemma group_fold_member:
  "(k, g) \<in> set (foldl (\<lambda>d x. setdefault_append (key x) (val x) d) [] xs) \<longleftrightarrow>
     k \<in> key ` set xs \<and> g = map val (filter (\<lambda>x. key x = k) xs)"
proof -
  let ?G = "foldl (\<lambda>d x. setdefault_append (key x) (val x) d) [] xs"
  have d: "distinct (map fst ?G)" by (rule group_fold_distinct) simp
  have "(k, g) \<in> set ?G \<longleftrightarrow> map_of ?G k = Some g"
    using d by simp
  then show ?thesis by (auto simp: group_fold_map_of)
qed

lemma hash_groups_fold:
  "hash_groups sha256 fps
     = foldl (\<lambda>d x. setdefault_append (file_hash sha256 x) (id x) d) [] fps"
  by (simp add: hash_groups_def)


lemma hash_groups_distinct: "distinct (map fst (hash_groups sha256 fps))"
  unfolding hash_groups_fold by (rule group_fold_distinct) simp


lemma hash_groups_member:
  "(h, g) \<in> set (hash_groups sha256 fps) \<longleftrightarrow>
     h \<in> file_hash sha256 ` set fps \<and> g = filter (\<lambda>fp. file_hash sha256 fp = h) fps"
  unfolding hash_groups_fold group_fold_member by simp






lemma is_cluster_pair: "is_cluster (k, vs) \<longleftrightarrow> 1 < length vs"
  by (simp add: is_cluster_def)

lemma foldl_report_duplicate:
  "foldl report_duplicate s G =
     s\<lparr>errors := errors s @ map (\<lambda>g. ContentHashDuplicate (map name (snd g))) (filter is_cluster G),
       stats := (stats s)\<lparr>hash_dupes := hash_dupes (stats s)
                 + sum_list (map (\<lambda>g. int (length (snd g)) - 1) (filter is_cluster G))\<rparr>\<rparr>"
proof (induction G arbitrary: s)
  case Nil
  then show ?case by simp
next
  case (Cons g G)
  show ?case
    unfolding foldl_Cons Cons.IH
    by (cases g) (simp add: report_duplicate_def is_cluster_pair)
qed

lemma foldl_report_collision:
  "foldl report_collision s G =
     s\<lparr>errors := errors s @ map (\<lambda>g. SlotCollision (fst g) (map name (snd g))) (filter is_cluster G),
       stats := (stats s)\<lparr>slot_collisions := slot_collisions (stats s)
                 + sum_list (map (\<lambda>g. int (length (snd g)) - 1) (filter is_cluster G))\<rparr>\<rparr>"
proof (induction G arbitrary: s)
  case Nil
  then show ?case by simp
next
  case (Cons g G)
  show ?case
    unfolding foldl_Cons Cons.IH
    by (cases g) (simp add: report_collision_def is_cluster_pair)
qed

lemma orphan_events_True: "orphan_events True = (\<lambda>n. [OrphanFound n, Unlink n])"
  by (simp add: fun_eq_iff orphan_events_def)

lemma orphan_events_False: "orphan_events False = (\<lambda>n. [OrphanFound n])"
  by (simp add: fun_eq_iff orphan_events_def)

lemma orphan_loop_Inr:
  "orphan_loop del dn R outs s = Inr s' \<Longrightarrow>
     s' = s\<lparr>warnings := warnings s @ map (Orphan dn) (orphan_names R outs),
            stats := (stats s)\<lparr>orphans := orphans (stats s) + int (length (orphan_names R outs)),
                              orphans_deleted := orphans_deleted (stats s)
                                + (if del then int (length (orphan_names R outs)) else 0)\<rparr>,
            out_files := (if del then filter (\<lambda>e. out_name e \<notin> set (orphan_names R outs)) (out_files s)
                          else out_files s),
            fs_events := fs_events s @ concat (map (orphan_events del) (orphan_names R outs))\<rparr>"
proof (induction outs arbitrary: s)
  case Nil
  then show ?case by (simp add: orphan_names_def)
next
  case (Cons e rest)
  show ?case
  proof (cases "out_name e \<in> R")
    case True
    with Cons.prems have "orphan_loop del dn R rest s = Inr s'" by simp
    from Cons.IH[OF this] True show ?thesis by (simp add: orphan_names_def)
  next
    case False
    show ?thesis
    proof (cases del)
      case True
      with False Cons.prems have u: "unlink_ok e" by (auto simp: Let_def split: if_splits)
      let ?s1 = "s\<lparr>warnings := warnings s @ [Orphan dn (out_name e)],
                    out_files := filter (\<lambda>e'. out_name e' \<noteq> out_name e) (out_files s),
                    stats := (stats s)\<lparr>orphans := orphans (stats s) + 1,
                                       orphans_deleted := orphans_deleted (stats s) + 1\<rparr>,
                    fs_events := fs_events s @ [OrphanFound (out_name e), Unlink (out_name e)]\<rparr>"
      have r: "orphan_loop del dn R rest ?s1 = Inr s'"
        using True False Cons.prems u by (simp add: Let_def)
      have on: "orphan_names R (e # rest) = out_name e # orphan_names R rest"
        using False by (simp add: orphan_names_def)
      show ?thesis
        unfolding Cons.IH[OF r] on using True
        by (simp add: orphan_events_True)
    next
      case F: False
      let ?s1 = "s\<lparr>warnings := warnings s @ [Orphan dn (out_name e)],
                    stats := (stats s)\<lparr>orphans := orphans (stats s) + 1\<rparr>,
                    fs_events := fs_events s @ [OrphanFound (out_name e)]\<rparr>"
      have r: "orphan_loop del dn R rest ?s1 = Inr s'"
        using F False Cons.prems by (simp add: Let_def)
      have on: "orphan_names R (e # rest) = out_name e # orphan_names R rest"
        using False by (simp add: orphan_names_def)
      show ?thesis
        unfolding Cons.IH[OF r] on using F
        by (simp add: orphan_events_False)
    qed
  qed
qed


lemma hash_pass_eq:
  "hash_pass sha256 s =
     s\<lparr>errors := errors s @ map duplicate_message (filter is_cluster (hash_groups sha256 (valid_list s))),
       stats := (stats s)\<lparr>hash_dupes := hash_dupes (stats s)
                 + extra_copies (hash_groups sha256 (valid_list s))\<rparr>\<rparr>"
  by (simp add: hash_pass_def foldl_report_duplicate extra_copies_def duplicate_message_def[abs_def])

lemma slot_pass_eq:
  "slot_pass s =
     s\<lparr>errors := errors s @ map collision_message (filter is_cluster (slot_groups (parsed_names s))),
       stats := (stats s)\<lparr>slot_collisions := slot_collisions (stats s)
                 + extra_copies (slot_groups (parsed_names s))\<rparr>\<rparr>"
  by (simp add: slot_pass_def foldl_report_collision extra_copies_def collision_message_def[abs_def])

lemma orphan_pass_Inr:
  assumes "orphan_pass fps od del s = Inr s'"
  shows "s' = (case output_listing od of
                 None \<Rightarrow> s
               | Some es \<Rightarrow>
                   s\<lparr>warnings := warnings s @ map (Orphan (output_name od)) (run_orphans fps od),
                     stats := (stats s)\<lparr>orphans := orphans (stats s) + int (length (run_orphans fps od)),
                                       orphans_deleted := orphans_deleted (stats s)
                                         + (if del then int (length (run_orphans fps od)) else 0)\<rparr>,
                     out_files := (if del then filter (\<lambda>e. out_name e \<notin> set (run_orphans fps od)) (out_files s)
                                   else out_files s),
                     fs_events := fs_events s @ ListOutput # concat (map (orphan_events del) (run_orphans fps od))\<rparr>)"
proof (cases od)
  case None
  with assms show ?thesis by (simp add: orphan_pass_def output_listing_def)
next
  case (Some d)
  show ?thesis
  proof (cases "listing d")
    case None
    with Some assms show ?thesis by (simp add: orphan_pass_def output_listing_def)
  next
    case (Some es)
    with \<open>od = Some d\<close> assms have
      "orphan_loop del (dir_name d) (set (map name fps)) (sorted_glob out_name (Some es))
         (s\<lparr>fs_events := fs_events s @ [ListOutput]\<rparr>) = Inr s'"
      by (simp add: orphan_pass_def)
    from orphan_loop_Inr[OF this] Some \<open>od = Some d\<close> show ?thesis
      by (simp add: output_listing_def output_name_def run_orphans_def)
  qed
qed

lemma validate_raw_Inr:
  assumes run: "validate_raw sha256 rd od del = Inr r" and ne: "json_files_of rd \<noteq> []"
  shows "r = \<lparr>errors = List.map_filter file_error (json_files_of rd)
                  @ map duplicate_message (filter is_cluster
                      (hash_groups sha256 (filter structurally_valid (json_files_of rd))))
                  @ map collision_message (filter is_cluster
                      (slot_groups (parsed_dict (json_files_of rd)))),
              warnings = map (\<lambda>f. BadPattern (name f)) (filter bad_name (json_files_of rd))
                  @ map (Orphan (output_name od)) (run_orphans (json_files_of rd) od),
              stats = \<lparr>total_files = int (length (json_files_of rd)),
                       valid_files = int (length (filter structurally_valid (json_files_of rd))),
                       bad_pattern = int (length (filter bad_name (json_files_of rd))),
                       bad_json = int (length (filter (\<lambda>f. loaded f = LoadFailed) (json_files_of rd))),
                       bad_structure = int (length (filter structure_rejected (json_files_of rd))),
                       hash_dupes = extra_copies
                         (hash_groups sha256 (filter structurally_valid (json_files_of rd))),
                       slot_collisions = extra_copies (slot_groups (parsed_dict (json_files_of rd))),
                       orphans = int (length (run_orphans (json_files_of rd) od)),
                       orphans_deleted =
                         (if del then int (length (run_orphans (json_files_of rd) od)) else 0)\<rparr>,
              valid_list = filter structurally_valid (json_files_of rd),
              parsed_names = parsed_dict (json_files_of rd),
              out_files =
                (case output_listing od of
                   None \<Rightarrow> []
                 | Some es \<Rightarrow>
                     if del then filter (\<lambda>e. out_name e \<notin> set (run_orphans (json_files_of rd) od)) es
                     else es),
              fs_events =
                (case output_listing od of
                   None \<Rightarrow> []
                 | Some es \<Rightarrow>
                     ListOutput # concat (map (orphan_events del) (run_orphans (json_files_of rd) od)))\<rparr>"
proof -
  let ?jf = "json_files_of rd"
  let ?s0 = "(initial_state od)\<lparr>stats := initial_stats\<lparr>total_files := int (length ?jf)\<rparr>\<rparr>"
  from run ne obtain s1 where
    s1: "scan_files ?jf ?s0 = Inr s1" and
    op: "orphan_pass ?jf od del
           (slot_pass (hash_pass sha256
              (s1\<lparr>stats := (stats s1)\<lparr>valid_files := int (length (valid_list s1))\<rparr>\<rparr>))) = Inr r"
    by (auto simp: validate_raw_def Let_def json_files_of_def split: sum.splits if_splits)
  define ini where "ini = (case output_listing od of None \<Rightarrow> [] | Some es \<Rightarrow> es)"
  have s0: "?s0 = \<lparr>errors = [], warnings = [],
                    stats = \<lparr>total_files = int (length ?jf), valid_files = 0, bad_pattern = 0,
                             bad_json = 0, bad_structure = 0, hash_dupes = 0,
                             slot_collisions = 0, orphans = 0, orphans_deleted = 0\<rparr>,
                    valid_list = [], parsed_names = [], out_files = ini, fs_events = []\<rparr>"
    by (simp add: initial_state_def initial_stats_def output_listing_def ini_def
        split: option.splits)
  define s2 where
    "s2 = s1\<lparr>stats := (stats s1)\<lparr>valid_files := int (length (valid_list s1))\<rparr>\<rparr>"
  have e2: "s2 = \<lparr>errors = List.map_filter file_error ?jf,
                   warnings = map (\<lambda>f. BadPattern (name f)) (filter bad_name ?jf),
                   stats = \<lparr>total_files = int (length ?jf),
                            valid_files = int (length (filter structurally_valid ?jf)),
                            bad_pattern = int (length (filter bad_name ?jf)),
                            bad_json = int (length (filter (\<lambda>f. loaded f = LoadFailed) ?jf)),
                            bad_structure = int (length (filter structure_rejected ?jf)),
                            hash_dupes = 0, slot_collisions = 0, orphans = 0,
                            orphans_deleted = 0\<rparr>,
                   valid_list = filter structurally_valid ?jf,
                   parsed_names = parsed_dict ?jf, out_files = ini, fs_events = []\<rparr>"
    unfolding s2_def scan_files_Inr[OF s1] s0 by (simp add: parsed_dict_def)
  define s3 where "s3 = hash_pass sha256 s2"
  have e3: "s3 = \<lparr>errors = List.map_filter file_error ?jf
                      @ map duplicate_message (filter is_cluster
                          (hash_groups sha256 (filter structurally_valid ?jf))),
                   warnings = map (\<lambda>f. BadPattern (name f)) (filter bad_name ?jf),
                   stats = \<lparr>total_files = int (length ?jf),
                            valid_files = int (length (filter structurally_valid ?jf)),
                            bad_pattern = int (length (filter bad_name ?jf)),
                            bad_json = int (length (filter (\<lambda>f. loaded f = LoadFailed) ?jf)),
                            bad_structure = int (length (filter structure_rejected ?jf)),
                            hash_dupes = extra_copies
                              (hash_groups sha256 (filter structurally_valid ?jf)),
                            slot_collisions = 0, orphans = 0, orphans_deleted = 0\<rparr>,
                   valid_list = filter structurally_valid ?jf,
                   parsed_names = parsed_dict ?jf, out_files = ini, fs_events = []\<rparr>"
    unfolding s3_def hash_pass_eq e2 by simp
  define s4 where "s4 = slot_pass s3"
  have e4: "s4 = \<lparr>errors = List.map_filter file_error ?jf
                      @ map duplicate_message (filter is_cluster
                          (hash_groups sha256 (filter structurally_valid ?jf)))
                      @ map collision_message (filter is_cluster
                          (slot_groups (parsed_dict ?jf))),
                   warnings = map (\<lambda>f. BadPattern (name f)) (filter bad_name ?jf),
                   stats = \<lparr>total_files = int (length ?jf),
                            valid_files = int (length (filter structurally_valid ?jf)),
                            bad_pattern = int (length (filter bad_name ?jf)),
                            bad_json = int (length (filter (\<lambda>f. loaded f = LoadFailed) ?jf)),
                            bad_structure = int (length (filter structure_rejected ?jf)),
                            hash_dupes = extra_copies
                              (hash_groups sha256 (filter structurally_valid ?jf)),
                            slot_collisions = extra_copies (slot_groups (parsed_dict ?jf)),
                            orphans = 0, orphans_deleted = 0\<rparr>,
                   valid_list = filter structurally_valid ?jf,
                   parsed_names = parsed_dict ?jf, out_files = ini, fs_events = []\<rparr>"
    unfolding s4_def slot_pass_eq e3 by simp
  from op have "orphan_pass ?jf od del s4 = Inr r"
    by (simp add: s4_def s3_def s2_def)
  from orphan_pass_Inr[OF this] show ?thesis
    unfolding e4 by (cases "output_listing od") (simp_all add: ini_def run_orphans_def)
qed


lemma validate_raw_empty:
  assumes "json_files_of rd = []"
  shows "validate_raw sha256 rd od del
           = Inr \<lparr>errors = [], warnings = [NoJsonFiles (dir_path rd)],
                  stats = initial_stats, valid_list = [], parsed_names = [],
                  out_files = (case output_listing od of None \<Rightarrow> [] | Some es \<Rightarrow> es),
                  fs_events = []\<rparr>"
  using assms
  by (simp add: validate_raw_def json_files_of_def initial_state_def initial_stats_def
      output_listing_def split: option.splits)

section \<open>Runs of the orchestrator\<close>

lemma validate_raw_no_raise:
  assumes "validate_raw sha256 rd od del = Inr r"
  shows "\<forall>fp\<in>set (json_files_of rd). loaded fp \<noteq> LoadRaised"
proof (cases "json_files_of rd = []")
  case True
  then show ?thesis by simp
next
  case False
  with assms obtain s0 s1 where "scan_files (json_files_of rd) s0 = Inr s1"
    by (auto simp: validate_raw_def Let_def json_files_of_def split: sum.splits if_splits)
  then show ?thesis by (rule scan_files_no_raise)
qed

lemma pass1_partition:
  "\<forall>fp\<in>set fps. loaded fp \<noteq> LoadRaised \<Longrightarrow>
     length fps = length (filter structurally_valid fps)
                  + length (filter (\<lambda>f. loaded f = LoadFailed) fps)
                  + length (filter structure_rejected fps)"
  by (induction fps)
     (auto simp: structurally_valid_def structure_rejected_def split: load_result.splits)

lemma pass1_exclusive:
  "loaded fp \<noteq> LoadRaised \<Longrightarrow>
     (structurally_valid fp \<and> loaded fp \<noteq> LoadFailed \<and> \<not> structure_rejected fp) \<or>
     (\<not> structurally_valid fp \<and> loaded fp = LoadFailed \<and> \<not> structure_rejected fp) \<or>
     (\<not> structurally_valid fp \<and> loaded fp \<noteq> LoadFailed \<and> structure_rejected fp)"
  by (auto simp: structurally_valid_def structure_rejected_def split: load_result.splits)

lemma extra_copies_nonneg: "0 \<le> extra_copies G"
  unfolding extra_copies_def by (rule sum_list_nonneg) (auto simp: is_cluster_def)

text \<open>
  C9. In every run that returns, the scanned files are counted once each as valid,
  unreadable or of the wrong structure, so \<open>total_files\<close> is the sum of the three
  counters; \<open>bad_pattern\<close> counts the names off the pattern and has no part in that
  sum; no counter is negative.
\<close>

theorem counters_partition:
  assumes "validate_raw sha256 rd od del = Inr r"
  shows "total_files (stats r)
           = valid_files (stats r) + bad_json (stats r) + bad_structure (stats r) \<and>
         total_files (stats r) = int (length (json_files_of rd)) \<and>
         valid_files (stats r) = int (length (filter structurally_valid (json_files_of rd))) \<and>
         bad_json (stats r)
           = int (length (filter (\<lambda>f. loaded f = LoadFailed) (json_files_of rd))) \<and>
         bad_structure (stats r)
           = int (length (filter structure_rejected (json_files_of rd))) \<and>
         bad_pattern (stats r) = int (length (filter bad_name (json_files_of rd))) \<and>
         (\<forall>fp\<in>set (json_files_of rd).
            (structurally_valid fp \<and> loaded fp \<noteq> LoadFailed \<and> \<not> structure_rejected fp) \<or>
            (\<not> structurally_valid fp \<and> loaded fp = LoadFailed \<and> \<not> structure_rejected fp) \<or>
            (\<not> structurally_valid fp \<and> loaded fp \<noteq> LoadFailed \<and> structure_rejected fp)) \<and>
         0 \<le> total_files (stats r) \<and> 0 \<le> valid_files (stats r) \<and>
         0 \<le> bad_pattern (stats r) \<and> 0 \<le> bad_json (stats r) \<and>
         0 \<le> bad_structure (stats r) \<and> 0 \<le> hash_dupes (stats r) \<and>
         0 \<le> slot_collisions (stats r) \<and> 0 \<le> orphans (stats r) \<and>
         0 \<le> orphans_deleted (stats r)"
proof -
  note nr = validate_raw_no_raise[OF assms]
  have ex: "\<forall>fp\<in>set (json_files_of rd).
            (structurally_valid fp \<and> loaded fp \<noteq> LoadFailed \<and> \<not> structure_rejected fp) \<or>
            (\<not> structurally_valid fp \<and> loaded fp = LoadFailed \<and> \<not> structure_rejected fp) \<or>
            (\<not> structurally_valid fp \<and> loaded fp \<noteq> LoadFailed \<and> structure_rejected fp)"
    using nr pass1_exclusive by blast
  show ?thesis
  proof (cases "json_files_of rd = []")
    case True
    from validate_raw_empty[OF True, of sha256 od del] assms
    have "stats r = initial_stats" by auto
    with True ex show ?thesis by (simp add: initial_stats_def)
  next
    case False
    note st = arg_cong[OF validate_raw_Inr[OF assms False], of stats, simplified]
    have p: "int (length (json_files_of rd))
               = int (length (filter structurally_valid (json_files_of rd)))
                 + int (length (filter (\<lambda>f. loaded f = LoadFailed) (json_files_of rd)))
                 + int (length (filter structure_rejected (json_files_of rd)))"
      using pass1_partition[OF nr] by linarith
    show ?thesis
      unfolding st using p ex by (simp add: extra_copies_nonneg)
  qed
qed


lemma validate_structure_not_run_message:
  "validate_structure doc pn = Some e \<Longrightarrow>
     (\<forall>n. e \<noteq> BadPattern n) \<and> (\<forall>ns. e \<noteq> ContentHashDuplicate ns) \<and>
     (\<forall>k ns. e \<noteq> SlotCollision k ns) \<and> (\<forall>d n. e \<noteq> Orphan d n)"
  by (drule validate_structure_messages) auto

lemma file_error_not_run_message:
  "file_error fp = Some e \<Longrightarrow>
     (\<forall>n. e \<noteq> BadPattern n) \<and> (\<forall>ns. e \<noteq> ContentHashDuplicate ns) \<and>
     (\<forall>k ns. e \<noteq> SlotCollision k ns) \<and> (\<forall>d n. e \<noteq> Orphan d n)"
  by (auto simp: file_error_def split: load_result.splits dest: validate_structure_not_run_message)

lemma pass1_errors_member:
  "e \<in> set (List.map_filter file_error fps) \<longleftrightarrow> (\<exists>fp\<in>set fps. file_error fp = Some e)"
  by (induction fps) (auto simp: map_filter_simps split: option.splits)

lemma run_orphans_member:
  "n \<in> set (run_orphans fps od) \<longleftrightarrow>
     (\<exists>es e. output_listing od = Some es \<and> e \<in> set es \<and> out_name e = n \<and>
        glob_json n \<and> n \<notin> name ` set fps)"
  by (cases "output_listing od") (auto simp: run_orphans_def orphan_names_def sorted_glob_def)

lemma orphan_events_member:
  "ev \<in> set (concat (map (orphan_events del) ns)) \<longleftrightarrow>
     (\<exists>n\<in>set ns. ev = OrphanFound n \<or> (del \<and> ev = Unlink n))"
  by (auto simp: orphan_events_def)

lemma json_files_of_set:
  "listing rd = Some es \<Longrightarrow> set (json_files_of rd) = {fp \<in> set es. glob_json (name fp)}"
  by (auto simp: json_files_of_def sorted_glob_def)

text \<open>
  C10. The raw names are those of all listed \<^verbatim>\<open>*.json\<close> files, whatever pass 1 made of
  them. An entry of the output directory whose name is the name of one of them is not
  reported as an orphan and not deleted, and it is still there after the run.
\<close>

theorem raw_names_protect_output:
  assumes run: "validate_raw sha256 rd od del = Inr r"
    and fp: "fp \<in> set (json_files_of rd)"
    and es: "output_listing od = Some es" and e: "e \<in> set es"
    and eq: "out_name e = name fp"
  shows "(\<forall>raw_es. listing rd = Some raw_es \<longrightarrow>
            set (json_files_of rd) = {f \<in> set raw_es. glob_json (name f)}) \<and>
         (\<forall>d. Orphan d (out_name e) \<notin> set (warnings r)) \<and>
         OrphanFound (out_name e) \<notin> set (fs_events r) \<and>
         Unlink (out_name e) \<notin> set (fs_events r) \<and>
         e \<in> set (out_files r)"
proof -
  from fp have ne: "json_files_of rd \<noteq> []" by auto
  note eqs = validate_raw_Inr[OF run ne]
  have no: "out_name e \<notin> set (run_orphans (json_files_of rd) od)"
    using fp eq by (auto simp: run_orphans_member)
  have w: "warnings r = map (\<lambda>f. BadPattern (name f)) (filter bad_name (json_files_of rd))
             @ map (Orphan (output_name od)) (run_orphans (json_files_of rd) od)"
    by (subst eqs) simp
  have ev: "fs_events r = ListOutput # concat (map (orphan_events del) (run_orphans (json_files_of rd) od))"
    by (subst eqs) (simp add: es)
  have o: "out_files r = (if del then filter (\<lambda>e. out_name e \<notin> set (run_orphans (json_files_of rd) od)) es else es)"
    by (subst eqs) (simp add: es)
  have 1: "\<forall>d. Orphan d (out_name e) \<notin> set (warnings r)"
    unfolding w using no by auto
  have 2: "OrphanFound (out_name e) \<notin> set (fs_events r)" "Unlink (out_name e) \<notin> set (fs_events r)"
    unfolding ev using no by (auto simp: orphan_events_def split: if_splits)
  have 3: "e \<in> set (out_files r)"
    unfolding o using no e by simp
  show ?thesis using 1 2 3 json_files_of_set by blast
qed


lemma orphan_loop_returns:
  "(del \<longrightarrow> (\<forall>e\<in>set outs. out_name e \<notin> R \<longrightarrow> unlink_ok e)) \<Longrightarrow>
     \<exists>s'. orphan_loop del dn R outs s = Inr s'"
  by (induction outs arbitrary: s) (auto simp: Let_def)

lemma validate_raw_returns:
  assumes "\<forall>fp\<in>set (json_files_of rd). loaded fp \<noteq> LoadRaised"
    and "del \<longrightarrow> (\<forall>es. output_listing od = Some es \<longrightarrow>
           (\<forall>e\<in>set es. glob_json (out_name e) \<longrightarrow> out_name e \<notin> name ` set (json_files_of rd)
              \<longrightarrow> unlink_ok e))"
  shows "\<exists>r. validate_raw sha256 rd od del = Inr r"
proof (cases "json_files_of rd = []")
  case True
  then show ?thesis by (simp add: validate_raw_empty)
next
  case False
  let ?s0 = "(initial_state od)\<lparr>stats := initial_stats\<lparr>total_files := int (length (json_files_of rd))\<rparr>\<rparr>"
  from scan_files_returns[OF assms(1)] obtain s1 where
    s1: "scan_files (json_files_of rd) ?s0 = Inr s1" by blast
  have "\<exists>r. orphan_pass (json_files_of rd) od del s = Inr r" for s
  proof (cases "output_listing od")
    case None
    then show ?thesis
      by (auto simp: orphan_pass_def output_listing_def split: option.splits)
  next
    case (Some es)
    then obtain d where d: "od = Some d" "listing d = Some es"
      by (auto simp: output_listing_def split: option.splits)
    have "del \<longrightarrow> (\<forall>e\<in>set (sorted_glob out_name (Some es)).
             out_name e \<notin> set (map name (json_files_of rd)) \<longrightarrow> unlink_ok e)"
      using assms(2) Some by (auto simp: sorted_glob_def)
    from orphan_loop_returns[OF this] show ?thesis
      by (simp add: orphan_pass_def d)
  qed
  with s1 False show ?thesis
    by (simp add: validate_raw_def Let_def json_files_of_def[symmetric])
qed

lemma example_names:
  "name raw_upper = ''1_INCOMING_0_0.json''" "name raw_lower = ''1_incoming_0_0.json''"
  "name raw_wrong = ''2_outgoing_0_0.json''" "name raw_broken = ''bad.json''"
  "name raw_copy = ''copy.json''" "name raw_notes = ''notes.txt''"
  by (simp_all add: raw_defs)

lemma example_loaded:
  "loaded raw_upper = Loaded (example_doc 200)" "loaded raw_lower = Loaded (example_doc 100)"
  "loaded raw_wrong = Loaded (JObj [(''wrong'', JBool True)])" "loaded raw_broken = LoadFailed"
  "loaded raw_copy = Loaded (example_doc 100)"
  by (simp_all add: raw_defs)

lemma example_json_files:
  "json_files_of (example_raw example_files)
     = [raw_upper, raw_lower, raw_wrong, raw_broken, raw_copy]"
  by (simp add: json_files_of_def example_raw_def example_files_def sorted_glob_def
      glob_json_def example_names)

lemma example_output_listing:
  "output_listing (Some example_out)
     = Some [\<lparr>out_name = ''9_incoming_0_0.json'', unlink_ok = True\<rparr>,
             \<lparr>out_name = ''bad.json'', unlink_ok = True\<rparr>,
             \<lparr>out_name = ''readme.txt'', unlink_ok = True\<rparr>,
             \<lparr>out_name = ''8_incoming_0_0.json'', unlink_ok = True\<rparr>]"
  by (simp add: output_listing_def example_out_def example_output_def)

lemma example_run_returns: "\<exists>r. example_run = Inr r"
  unfolding example_run_def
  by (rule validate_raw_returns)
     (simp_all add: example_json_files example_loaded example_output_listing)

lemma example_parsed:
  "parse_filename (name raw_upper)
     = Some \<lparr>device = ''1'', direction = ''incoming'', tile_x = ''0'', tile_y = ''0''\<rparr>"
  "parse_filename (name raw_lower)
     = Some \<lparr>device = ''1'', direction = ''incoming'', tile_x = ''0'', tile_y = ''0''\<rparr>"
  "parse_filename (name raw_wrong)
     = Some \<lparr>device = ''2'', direction = ''outgoing'', tile_x = ''0'', tile_y = ''0''\<rparr>"
  "parse_filename (name raw_broken) = None"
  "parse_filename (name raw_copy) = None"
  unfolding example_names by (simp_all add: regex_defs)

lemma example_bad_name:
  "\<not> bad_name raw_upper" "\<not> bad_name raw_lower" "\<not> bad_name raw_wrong"
  "bad_name raw_broken" "bad_name raw_copy"
  by (simp_all add: bad_name_def example_parsed)

lemma example_doc_valid: "validate_structure (example_doc t) pn = None"
  by (simp add: validate_structure_def example_doc_def EXPECTED_FIELDS_def str_lower_def
      lower_char_def)

lemma example_wrong_rejected:
  "validate_structure (JObj [(''wrong'', JBool True)]) pn = Some (MissingKey pn ''nodeFormat'')"
  by (simp add: validate_structure_def)

lemma example_valid:
  "structurally_valid raw_upper" "structurally_valid raw_lower" "\<not> structurally_valid raw_wrong"
  "\<not> structurally_valid raw_broken" "structurally_valid raw_copy"
  by (simp_all add: structurally_valid_def example_loaded example_doc_valid
      example_wrong_rejected)

lemma example_rejected:
  "\<not> structure_rejected raw_upper" "\<not> structure_rejected raw_lower" "structure_rejected raw_wrong"
  "\<not> structure_rejected raw_broken" "\<not> structure_rejected raw_copy"
  by (simp_all add: structure_rejected_def example_loaded example_doc_valid
      example_wrong_rejected)

theorem counters_partition_witness:
  "example_run = Inr (projr example_run) \<and>
   total_files (stats (projr example_run)) = 5 \<and>
   valid_files (stats (projr example_run)) = 3 \<and>
   bad_json (stats (projr example_run)) = 1 \<and>
   bad_structure (stats (projr example_run)) = 1 \<and>
   bad_pattern (stats (projr example_run)) = 2"
proof -
  from example_run_returns obtain r where r: "example_run = Inr r" ..
  then have v: "validate_raw example_digest (example_raw example_files) (Some example_out) True
                  = Inr r"
    by (simp add: example_run_def)
  from counters_partition [OF v] show ?thesis
    unfolding r example_json_files
    by (simp add: example_valid example_rejected example_bad_name example_loaded)
qed

theorem raw_names_protect_output_witness:
  "example_run = Inr (projr example_run) \<and>
   raw_broken \<in> set (json_files_of (example_raw example_files)) \<and>
   \<not> structurally_valid raw_broken \<and>
   \<lparr>out_name = ''bad.json'', unlink_ok = True\<rparr> \<in> set (out_files (projr example_run)) \<and>
   Unlink ''bad.json'' \<notin> set (fs_events (projr example_run))"
proof -
  from example_run_returns obtain r where r: "example_run = Inr r" ..
  then have v: "validate_raw example_digest (example_raw example_files) (Some example_out) True
                  = Inr r"
    by (simp add: example_run_def)
  have fp: "raw_broken \<in> set (json_files_of (example_raw example_files))"
    by (simp add: example_json_files)
  have e: "\<lparr>out_name = ''bad.json'', unlink_ok = True\<rparr>
             \<in> set [\<lparr>out_name = ''9_incoming_0_0.json'', unlink_ok = True\<rparr>,
                    \<lparr>out_name = ''bad.json'', unlink_ok = True\<rparr>,
                    \<lparr>out_name = ''readme.txt'', unlink_ok = True\<rparr>,
                    \<lparr>out_name = ''8_incoming_0_0.json'', unlink_ok = True\<rparr>]"
    by simp
  have n: "out_name \<lparr>out_name = ''bad.json'', unlink_ok = True\<rparr> = name raw_broken"
    by (simp add: example_names)
  from raw_names_protect_output [OF v fp example_output_listing e n] fp
  show ?thesis unfolding r by (simp add: example_valid)
qed

section \<open>Orphans of the output directory\<close>

lemma count_list_map_inj:
  "distinct xs \<Longrightarrow> inj_on f (set xs) \<Longrightarrow>
     count_list (map f xs) y = (if y \<in> f ` set xs then 1 else 0)"
  by (induction xs) auto

lemma count_list_absent: "y \<notin> set xs \<Longrightarrow> count_list xs y = 0"
  by (simp add: count_list_0_iff)

lemma distinct_map_insort_key:
  "distinct (map f (insort_key f a xs)) \<longleftrightarrow> f a \<notin> f ` set xs \<and> distinct (map f xs)"
  by (induction xs) (auto simp: set_insort_key)

lemma distinct_map_sort_key:
  "distinct (map f (sort_key f xs)) \<longleftrightarrow> distinct (map f xs)"
  by (induction xs) (simp_all add: distinct_map_insort_key)

lemma run_orphans_distinct:
  assumes "output_listing od = Some es" "distinct (map out_name es)"
  shows "distinct (run_orphans fps od)"
proof -
  have "distinct (map out_name (filter (\<lambda>e. glob_json (out_name e)) es))"
    using assms(2) by (rule distinct_map_filter)
  then have "distinct (map out_name (sorted_glob out_name (Some es)))"
    by (simp add: sorted_glob_def distinct_map_sort_key)
  then show ?thesis
    by (simp add: run_orphans_def assms(1) orphan_names_def)
qed

lemma bad_pattern_not_orphan:
  "Orphan d n \<notin> set (map (\<lambda>f. BadPattern (name f)) fps)"
  by auto

lemma run_errors_not_orphan:
  assumes "validate_raw sha256 rd od del = Inr r"
  shows "Orphan d n \<notin> set (errors r) \<and> BadPattern n \<notin> set (errors r)"
proof (cases "json_files_of rd = []")
  case True
  from validate_raw_empty[OF True, of sha256 od del] assms show ?thesis by auto
next
  case False
  have e: "errors r = List.map_filter file_error (json_files_of rd)
                  @ map duplicate_message (filter is_cluster
                      (hash_groups sha256 (filter structurally_valid (json_files_of rd))))
                  @ map collision_message (filter is_cluster
                      (slot_groups (parsed_dict (json_files_of rd))))"
    by (subst validate_raw_Inr[OF assms False]) simp
  show ?thesis
    unfolding e
    by (auto simp: pass1_errors_member duplicate_message_def collision_message_def
        dest: file_error_not_run_message)
qed

text \<open>
  C7, as the code has it. A run over a raw directory with no \<^verbatim>\<open>*.json\<close> file returns
  before the reconciliation: no orphan is reported, counted or deleted. In every other
  run, each \<^verbatim>\<open>*.json\<close> name of the output directory that is the name of no raw
  \<^verbatim>\<open>*.json\<close> file gets exactly one warning and one count, and only such names do; the
  comparison is equality of names. With deletion on, exactly these files leave the
  directory and are counted as deleted; with deletion off, nothing leaves. Without an
  output directory, or under a path that is no directory, the step is skipped: no
  orphans and no event. An orphan is never an error.
\<close>

theorem orphan_reconciliation:
  assumes run: "validate_raw sha256 rd od del = Inr r"
  shows "(json_files_of rd = [] \<longrightarrow>
            orphans (stats r) = 0 \<and> orphans_deleted (stats r) = 0 \<and> fs_events r = [] \<and>
            (\<forall>d n. Orphan d n \<notin> set (warnings r))) \<and>
         (json_files_of rd \<noteq> [] \<longrightarrow>
            (\<forall>es. output_listing od = Some es \<and> distinct (map out_name es) \<longrightarrow>
               (\<forall>e\<in>set es.
                  glob_json (out_name e) \<and> out_name e \<notin> name ` set (json_files_of rd) \<longrightarrow>
                  count_list (warnings r) (Orphan (output_name od) (out_name e)) = 1) \<and>
               orphans (stats r)
                 = int (card {n. \<exists>e\<in>set es. out_name e = n \<and> glob_json n \<and>
                                   n \<notin> name ` set (json_files_of rd)}) \<and>
               (del \<longrightarrow>
                  out_files r
                    = filter (\<lambda>e. \<not> (glob_json (out_name e) \<and>
                                      out_name e \<notin> name ` set (json_files_of rd))) es \<and>
                  orphans_deleted (stats r) = orphans (stats r)) \<and>
               (\<not> del \<longrightarrow> out_files r = es \<and> orphans_deleted (stats r) = 0)) \<and>
            (\<forall>d n. Orphan d n \<in> set (warnings r) \<longrightarrow>
               d = output_name od \<and>
               (\<exists>es. output_listing od = Some es \<and>
                  (\<exists>e\<in>set es. out_name e = n \<and> glob_json n \<and>
                     n \<notin> name ` set (json_files_of rd)))) \<and>
            (output_listing od = None \<longrightarrow>
               orphans (stats r) = 0 \<and> orphans_deleted (stats r) = 0 \<and> fs_events r = [] \<and>
               (\<forall>d n. Orphan d n \<notin> set (warnings r)))) \<and>
         (\<forall>d n. Orphan d n \<notin> set (errors r))"
proof (intro conjI impI allI ballI)
  show "Orphan d n \<notin> set (errors r)" for d n
    using run_errors_not_orphan[OF run] by blast
next
  assume em: "json_files_of rd = []"
  from validate_raw_empty[OF em, of sha256 od del] run
  have r: "r = \<lparr>errors = [], warnings = [NoJsonFiles (dir_path rd)],
                  stats = initial_stats, valid_list = [], parsed_names = [],
                  out_files = (case output_listing od of None \<Rightarrow> [] | Some es \<Rightarrow> es),
                  fs_events = []\<rparr>" by simp
  show "orphans (stats r) = 0" "orphans_deleted (stats r) = 0" "fs_events r = []"
    by (simp_all add: r initial_stats_def)
  show "Orphan d n \<notin> set (warnings r)" for d n by (simp add: r)
next
  assume ne: "json_files_of rd \<noteq> []"
  let ?jf = "json_files_of rd"
  let ?O = "run_orphans ?jf od"
  note eqs = validate_raw_Inr[OF run ne]
  have w: "warnings r = map (\<lambda>f. BadPattern (name f)) (filter bad_name ?jf)
             @ map (Orphan (output_name od)) ?O"
    by (subst eqs) simp
  have oc: "orphans (stats r) = int (length ?O)"
    by (subst eqs) simp
  have od': "orphans_deleted (stats r) = (if del then int (length ?O) else 0)"
    by (subst eqs) simp
  have ev: "fs_events r = (case output_listing od of None \<Rightarrow> []
              | Some es \<Rightarrow> ListOutput # concat (map (orphan_events del) ?O))"
    by (subst eqs) simp
  have of: "out_files r = (case output_listing od of None \<Rightarrow> []
              | Some es \<Rightarrow> if del then filter (\<lambda>e. out_name e \<notin> set ?O) es else es)"
    by (subst eqs) simp
  {
    fix d n assume "Orphan d n \<in> set (warnings r)"
    then have "d = output_name od \<and> n \<in> set ?O" unfolding w by auto
    then show "d = output_name od" 
      and "\<exists>es. output_listing od = Some es \<and>
                  (\<exists>e\<in>set es. out_name e = n \<and> glob_json n \<and> n \<notin> name ` set ?jf)"
      by (auto simp: run_orphans_member)
  }
  {
    assume no: "output_listing od = None"
    then have O: "?O = []" by (simp add: run_orphans_def)
    show "orphans (stats r) = 0" "orphans_deleted (stats r) = 0" "fs_events r = []"
      by (simp_all add: oc od' ev O no)
    show "Orphan d n \<notin> set (warnings r)" for d n
      unfolding w O by auto
  }
  {
    fix es assume a: "output_listing od = Some es \<and> distinct (map out_name es)"
    then have es: "output_listing od = Some es" and dist: "distinct (map out_name es)" by auto
    have dO: "distinct ?O" using es dist by (rule run_orphans_distinct)
    have sO: "set ?O = {n. \<exists>e\<in>set es. out_name e = n \<and> glob_json n \<and> n \<notin> name ` set ?jf}"
      by (auto simp: run_orphans_member es)
    show "orphans (stats r)
            = int (card {n. \<exists>e\<in>set es. out_name e = n \<and> glob_json n \<and> n \<notin> name ` set ?jf})"
      unfolding oc sO[symmetric] using dO by (simp add: distinct_card)
    {
      fix e assume e: "e \<in> set es"
        and g: "glob_json (out_name e) \<and> out_name e \<notin> name ` set ?jf"
      then have m: "out_name e \<in> set ?O" unfolding sO by blast
      have "count_list (warnings r) (Orphan (output_name od) (out_name e))
              = count_list (map (Orphan (output_name od)) ?O) (Orphan (output_name od) (out_name e))"
        unfolding w by (simp add: count_list_absent[OF bad_pattern_not_orphan])
      also have "\<dots> = 1"
        using count_list_map_inj[OF dO, of "Orphan (output_name od)"] m
        by (simp add: inj_on_def)
      finally show "count_list (warnings r) (Orphan (output_name od) (out_name e)) = 1" .
    }
    {
      assume del
      have "filter (\<lambda>e. out_name e \<notin> set ?O) es
              = filter (\<lambda>e. \<not> (glob_json (out_name e) \<and> out_name e \<notin> name ` set ?jf)) es"
        by (rule filter_cong) (auto simp: sO)
      then show "out_files r
                   = filter (\<lambda>e. \<not> (glob_json (out_name e) \<and> out_name e \<notin> name ` set ?jf)) es"
        using \<open>del\<close> by (simp add: of es)
      show "orphans_deleted (stats r) = orphans (stats r)"
        using \<open>del\<close> by (simp add: oc od')
    }
    {
      assume "\<not> del"
      then show "out_files r = es" "orphans_deleted (stats r) = 0"
        by (simp_all add: of es od')
    }
  }
qed


theorem orphan_reconciliation_witness:
  "example_run = Inr (projr example_run) \<and>
   json_files_of (example_raw example_files) \<noteq> [] \<and>
   count_list (warnings (projr example_run)) (Orphan ''output'' ''9_incoming_0_0.json'') = 1 \<and>
   out_files (projr example_run)
     = [\<lparr>out_name = ''bad.json'', unlink_ok = True\<rparr>,
        \<lparr>out_name = ''readme.txt'', unlink_ok = True\<rparr>] \<and>
   orphans_deleted (stats (projr example_run)) = orphans (stats (projr example_run))"
proof -
  from example_run_returns obtain r where r: "example_run = Inr r" ..
  then have v: "validate_raw example_digest (example_raw example_files) (Some example_out) True
                  = Inr r"
    by (simp add: example_run_def)
  have ne: "json_files_of (example_raw example_files) \<noteq> []"
    by (simp add: example_json_files)
  have d: "output_listing (Some example_out)
             = Some [\<lparr>out_name = ''9_incoming_0_0.json'', unlink_ok = True\<rparr>,
                     \<lparr>out_name = ''bad.json'', unlink_ok = True\<rparr>,
                     \<lparr>out_name = ''readme.txt'', unlink_ok = True\<rparr>,
                     \<lparr>out_name = ''8_incoming_0_0.json'', unlink_ok = True\<rparr>] \<and>
           distinct (map out_name
                    [\<lparr>out_name = ''9_incoming_0_0.json'', unlink_ok = True\<rparr>,
                     \<lparr>out_name = ''bad.json'', unlink_ok = True\<rparr>,
                     \<lparr>out_name = ''readme.txt'', unlink_ok = True\<rparr>,
                     \<lparr>out_name = ''8_incoming_0_0.json'', unlink_ok = True\<rparr>])"
    by (simp add: example_output_listing)
  have n: "output_name (Some example_out) = ''output''"
    by (simp add: output_name_def example_out_def example_output_def)
  from orphan_reconciliation [OF v, THEN conjunct2, THEN conjunct1, rule_format, OF ne,
      THEN conjunct1, rule_format, OF d]
  show ?thesis
    unfolding r using ne
    by (simp add: n example_json_files example_names glob_json_def)
qed

text \<open>
  The claim as written fails when the raw directory lists no \<^verbatim>\<open>*.json\<close> file: the run
  returns before pass 4, and a file of the output directory that has no raw name is
  neither reported nor counted nor deleted.
\<close>

theorem orphans_skipped_on_empty_raw:
  "validate_raw example_digest (example_raw []) (Some example_out) True
     = Inr \<lparr>errors = [], warnings = [NoJsonFiles ''./raw''],
            stats = \<lparr>total_files = 0, valid_files = 0, bad_pattern = 0, bad_json = 0,
                     bad_structure = 0, hash_dupes = 0, slot_collisions = 0, orphans = 0,
                     orphans_deleted = 0\<rparr>,
            valid_list = [], parsed_names = [],
            out_files = [\<lparr>out_name = ''9_incoming_0_0.json'', unlink_ok = True\<rparr>,
                         \<lparr>out_name = ''bad.json'', unlink_ok = True\<rparr>,
                         \<lparr>out_name = ''readme.txt'', unlink_ok = True\<rparr>,
                         \<lparr>out_name = ''8_incoming_0_0.json'', unlink_ok = True\<rparr>],
            fs_events = []\<rparr>"
  by (simp add: validate_raw_def sorted_glob_def initial_state_def initial_stats_def
      example_raw_def example_out_def example_output_def)

text \<open>
  C5, as the code has it. In a run that deletes orphans, the output directory is listed
  once, before anything else is done to it, and never again; every deletion comes after
  that listing and removes a file of that listing. The loop goes over the names listed
  at the start, whatever it has deleted meanwhile. Finding the orphans and deleting
  them are not two steps: each listed name is tested against the raw names and, if it
  is an orphan, reported and removed at once, before the next name is tested.
\<close>

theorem listing_before_deletion:
  assumes run: "validate_raw sha256 rd od True = Inr r"
  shows "(fs_events r \<noteq> [] \<longrightarrow>
            hd (fs_events r) = ListOutput \<and> ListOutput \<notin> set (tl (fs_events r))) \<and>
         (\<forall>n. Unlink n \<in> set (fs_events r) \<longrightarrow>
            Unlink n \<in> set (tl (fs_events r)) \<and>
            (\<exists>es. output_listing od = Some es \<and> (\<exists>e\<in>set es. out_name e = n))) \<and>
         (\<forall>es. output_listing od = Some es \<and> json_files_of rd \<noteq> [] \<longrightarrow>
            fs_events r
              = ListOutput #
                concat (map (\<lambda>n. [OrphanFound n, Unlink n])
                  (orphan_names (set (map name (json_files_of rd)))
                     (sorted_glob out_name (Some es)))) \<and>
            out_files r
              = filter (\<lambda>e. out_name e \<notin> set (orphan_names (set (map name (json_files_of rd)))
                                                 (sorted_glob out_name (Some es)))) es)"
proof (cases "json_files_of rd = []")
  case True
  from validate_raw_empty[OF True, of sha256 od True] run
  have "fs_events r = []" by auto
  with True show ?thesis by simp
next
  case False
  let ?O = "run_orphans (json_files_of rd) od"
  note eqs = validate_raw_Inr[OF run False]
  have ev: "fs_events r = (case output_listing od of None \<Rightarrow> []
              | Some es \<Rightarrow> ListOutput # concat (map (orphan_events True) ?O))"
    by (subst eqs) simp
  have of: "out_files r = (case output_listing od of None \<Rightarrow> []
              | Some es \<Rightarrow> filter (\<lambda>e. out_name e \<notin> set ?O) es)"
    by (subst eqs) (simp split: option.splits)
  show ?thesis
  proof (cases "output_listing od")
    case None
    then show ?thesis by (simp add: ev)
  next
    case (Some es)
    have O: "?O = orphan_names (set (map name (json_files_of rd))) (sorted_glob out_name (Some es))"
      by (simp add: run_orphans_def Some)
    have e: "fs_events r = ListOutput # concat (map (\<lambda>n. [OrphanFound n, Unlink n]) ?O)"
      by (simp add: ev Some orphan_events_True)
    have 1: "ListOutput \<notin> set (concat (map (\<lambda>n. [OrphanFound n, Unlink n]) ?O))"
      by auto
    have 2: "Unlink n \<in> set (fs_events r) \<Longrightarrow>
               Unlink n \<in> set (tl (fs_events r)) \<and> (\<exists>e\<in>set es. out_name e = n)" for n
      unfolding e by (auto simp: run_orphans_member Some)
    show ?thesis
      using 1 2 False by (simp add: e of Some O)
  qed
qed

theorem listing_before_deletion_witness:
  "example_run = Inr (projr example_run) \<and>
   fs_events (projr example_run)
     = [ListOutput, OrphanFound ''8_incoming_0_0.json'', Unlink ''8_incoming_0_0.json'',
        OrphanFound ''9_incoming_0_0.json'', Unlink ''9_incoming_0_0.json'']"
proof -
  from example_run_returns obtain r where r: "example_run = Inr r" ..
  then have v: "validate_raw example_digest (example_raw example_files) (Some example_out) True
                  = Inr r"
    by (simp add: example_run_def)
  have d: "output_listing (Some example_out)
             = Some [\<lparr>out_name = ''9_incoming_0_0.json'', unlink_ok = True\<rparr>,
                     \<lparr>out_name = ''bad.json'', unlink_ok = True\<rparr>,
                     \<lparr>out_name = ''readme.txt'', unlink_ok = True\<rparr>,
                     \<lparr>out_name = ''8_incoming_0_0.json'', unlink_ok = True\<rparr>] \<and>
           json_files_of (example_raw example_files) \<noteq> []"
    by (simp add: example_output_listing example_json_files)
  from listing_before_deletion [OF v, THEN conjunct2, THEN conjunct2, rule_format, OF d,
      THEN conjunct1]
  show ?thesis
    unfolding r
    by (simp add: example_json_files example_names orphan_names_def sorted_glob_def
        glob_json_def)
qed

section \<open>Grouping\<close>


lemma foldl_append_chunks: "foldl (\<lambda>h chunk. h @ chunk) a cs = a @ concat cs"
  by (induction cs arbitrary: a) simp_all

lemma concat_read_chunks: "0 < n \<Longrightarrow> concat (read_chunks n bs) = bs"
proof (induction n bs rule: read_chunks.induct)
  case (1 n bs)
  show ?case
  proof (cases "bs = []")
    case True
    then show ?thesis by (subst read_chunks.simps) simp
  next
    case False
    with 1 have "concat (read_chunks n (drop n bs)) = drop n bs" by simp
    with False 1(2) show ?thesis by (subst read_chunks.simps) simp
  qed
qed

lemma file_hash_content: "file_hash sha256 fp = sha256 (content fp)"
  by (simp add: file_hash_def foldl_append_chunks concat_read_chunks)

lemma count_cluster_messages:
  assumes "distinct G" "inj_on msg (set G)" "g \<in> set G"
  shows "count_list (map msg (filter is_cluster G)) (msg g) = (if is_cluster g then 1 else 0)"
proof -
  have d: "distinct (filter is_cluster G)" using assms(1) by simp
  have i: "inj_on msg (set (filter is_cluster G))"
    using assms(2) by (rule inj_on_subset) auto
  have "msg g \<in> msg ` set (filter is_cluster G) \<longleftrightarrow> is_cluster g"
    using assms(2,3) by (auto simp: inj_on_def)
  with count_list_map_inj[OF d i, of "msg g"] show ?thesis by simp
qed

lemma extra_copies_all:
  "\<forall>g\<in>set G. snd g \<noteq> [] \<Longrightarrow>
     extra_copies G = sum_list (map (\<lambda>g. int (length (snd g)) - 1) G)"
proof (induction G)
  case Nil
  then show ?case by (simp add: extra_copies_def)
next
  case (Cons g G)
  then have "extra_copies G = sum_list (map (\<lambda>g. int (length (snd g)) - 1) G)" by simp
  moreover have "\<not> is_cluster g \<Longrightarrow> int (length (snd g)) - 1 = 0"
    using Cons.prems by (cases "snd g") (auto simp: is_cluster_def)
  ultimately show ?case by (auto simp: extra_copies_def)
qed

lemma singleton_groups:
  assumes "distinct (map fst G)" "set G = {x}"
  shows "G = [x]"
proof -
  from assms(1) have "distinct G" by (simp add: distinct_map)
  then have "length G = card (set G)" by (simp add: distinct_card)
  with assms(2) have "length G = 1" by simp
  then obtain y where "G = [y]" by (cases G) auto
  with assms(2) show ?thesis by simp
qed


lemma hash_groups_nonempty: "\<forall>g\<in>set (hash_groups sha256 fps). snd g \<noteq> []"
  by (auto simp: hash_groups_member filter_empty_conv)


lemma duplicate_message_inj:
  assumes "inj_on name (set fps)"
  shows "inj_on duplicate_message (set (hash_groups sha256 fps))"
proof (rule inj_onI)
  fix g1 g2
  assume m1: "g1 \<in> set (hash_groups sha256 fps)" and m2: "g2 \<in> set (hash_groups sha256 fps)"
    and eq: "duplicate_message g1 = duplicate_message g2"
  obtain h1 l1 h2 l2 where g: "g1 = (h1, l1)" "g2 = (h2, l2)" by (cases g1, cases g2) auto
  from m1 m2 g have
    l1: "l1 = filter (\<lambda>fp. file_hash sha256 fp = h1) fps" and
    l2: "l2 = filter (\<lambda>fp. file_hash sha256 fp = h2) fps" and
    n1: "l1 \<noteq> []"
    by (auto simp: hash_groups_member filter_empty_conv)
  have "inj_on name (set l1 \<union> set l2)"
    using assms by (rule inj_on_subset) (auto simp: l1 l2)
  moreover from eq g have "map name l1 = map name l2" by (simp add: duplicate_message_def)
  ultimately have l: "l1 = l2" by (simp add: inj_on_map_eq_map)
  from n1 obtain fp where fp: "fp \<in> set l1" by (cases l1) auto
  from fp have "file_hash sha256 fp = h1" unfolding l1 by simp
  moreover from fp l have "fp \<in> set l2" by simp
  then have "file_hash sha256 fp = h2" unfolding l2 by simp
  ultimately show "g1 = g2" using l g by simp
qed



section \<open>Content groups and slot groups\<close>

lemma run_valid_list:
  assumes "validate_raw sha256 rd od del = Inr r"
  shows "valid_list r = filter structurally_valid (json_files_of rd)"
proof (cases "json_files_of rd = []")
  case True
  from validate_raw_empty[OF True, of sha256 od del] assms show ?thesis
    by (auto simp: True)
next
  case False
  show ?thesis by (subst validate_raw_Inr[OF assms False]) simp
qed


lemma run_errors:
  assumes "validate_raw sha256 rd od del = Inr r"
  shows "errors r = List.map_filter file_error (json_files_of rd)
           @ map duplicate_message (filter is_cluster (hash_groups sha256 (valid_list r)))
           @ map collision_message (filter is_cluster (slot_groups (parsed_names r)))"
proof (cases "json_files_of rd = []")
  case True
  from validate_raw_empty[OF True, of sha256 od del] assms show ?thesis
    by (auto simp: True map_filter_simps hash_groups_def slot_groups_def)
next
  case False
  show ?thesis by (subst (1 2 3) validate_raw_Inr[OF assms False]) simp
qed

lemma run_hash_dupes:
  assumes "validate_raw sha256 rd od del = Inr r"
  shows "hash_dupes (stats r) = extra_copies (hash_groups sha256 (valid_list r))"
proof (cases "json_files_of rd = []")
  case True
  from validate_raw_empty[OF True, of sha256 od del] assms show ?thesis
    by (auto simp: initial_stats_def hash_groups_def extra_copies_def)
next
  case False
  show ?thesis by (subst (1 2) validate_raw_Inr[OF assms False]) simp
qed


lemma pass1_errors_no_duplicate:
  "ContentHashDuplicate ns \<notin> set (List.map_filter file_error fps)"
  "SlotCollision k ns \<notin> set (List.map_filter file_error fps)"
  by (auto simp: pass1_errors_member dest: file_error_not_run_message)

lemma hash_group_of_content:
  assumes "inj_on sha256 (content ` set fps)" "c \<in> content ` set fps"
  shows "(sha256 c, filter (\<lambda>fp. content fp = c) fps) \<in> set (hash_groups sha256 fps)"
proof -
  have "sha256 (content fp) = sha256 c \<longleftrightarrow> content fp = c" if "fp \<in> set fps" for fp
    using assms that by (auto dest: inj_onD)
  then have "filter (\<lambda>fp. file_hash sha256 fp = sha256 c) fps = filter (\<lambda>fp. content fp = c) fps"
    by (intro filter_cong refl) (simp add: file_hash_content)
  moreover have "sha256 c \<in> file_hash sha256 ` set fps"
    using assms(2) by (auto simp: file_hash_content)
  ultimately show ?thesis by (simp add: hash_groups_member)
qed

text \<open>
  C1. The structurally valid files are grouped by the digest of their bytes: the groups
  have distinct digests, and the group of a digest holds all valid files with that
  digest, in their order; where the digest tells the contents present apart, that is
  the files with the same bytes. Each group of more than one file gives exactly one error, with
  the names of all its files; a group of one file gives none, and there is no other
  such error. The counter is the sum over the groups of their size less one. When all
  valid files have the same bytes there is one group, one error for it if it has more
  than one file, and the counter is their number less one.
\<close>

theorem content_hash_duplicates:
  assumes run: "validate_raw sha256 rd od del = Inr r"
    and dist: "distinct (map name (json_files_of rd))"
  shows "valid_list r = filter structurally_valid (json_files_of rd) \<and>
         (\<forall>fp. file_hash sha256 fp = sha256 (content fp)) \<and>
         distinct (map fst (hash_groups sha256 (valid_list r))) \<and>
         (\<forall>h g. (h, g) \<in> set (hash_groups sha256 (valid_list r)) \<longleftrightarrow>
            h \<in> (\<lambda>fp. sha256 (content fp)) ` set (valid_list r) \<and>
            g = filter (\<lambda>fp. sha256 (content fp) = h) (valid_list r)) \<and>
         (\<forall>(h, g)\<in>set (hash_groups sha256 (valid_list r)).
            count_list (errors r) (ContentHashDuplicate (map name g))
              = (if 1 < length g then 1 else 0)) \<and>
         (\<forall>ns. ContentHashDuplicate ns \<in> set (errors r) \<longrightarrow>
            (\<exists>(h, g)\<in>set (hash_groups sha256 (valid_list r)). 1 < length g \<and> ns = map name g)) \<and>
         hash_dupes (stats r)
           = (\<Sum>(h, g)\<leftarrow>hash_groups sha256 (valid_list r). int (length g) - 1) \<and>
         (\<forall>c. valid_list r \<noteq> [] \<and> (\<forall>fp\<in>set (valid_list r). content fp = c) \<longrightarrow>
            hash_groups sha256 (valid_list r) = [(sha256 c, valid_list r)] \<and>
            hash_dupes (stats r) = int (length (valid_list r)) - 1 \<and>
            count_list (errors r) (ContentHashDuplicate (map name (valid_list r)))
              = (if 1 < length (valid_list r) then 1 else 0)) \<and>
         (\<forall>c. inj_on sha256 (content ` set (valid_list r)) \<and>
              c \<in> content ` set (valid_list r) \<longrightarrow>
            (sha256 c, filter (\<lambda>fp. content fp = c) (valid_list r))
              \<in> set (hash_groups sha256 (valid_list r)))"
proof -
  let ?V = "valid_list r"
  let ?G = "hash_groups sha256 ?V"
  have V: "?V = filter structurally_valid (json_files_of rd)" by (rule run_valid_list[OF run])
  have injV: "inj_on name (set ?V)"
    using dist unfolding V by (auto simp: distinct_map intro: inj_on_subset)
  have dG: "distinct (map fst ?G)" by (rule hash_groups_distinct)
  then have dG': "distinct ?G" by (simp add: distinct_map)
  have mem: "(h, g) \<in> set ?G \<longleftrightarrow>
            h \<in> (\<lambda>fp. sha256 (content fp)) ` set ?V \<and>
            g = filter (\<lambda>fp. sha256 (content fp) = h) ?V" for h g
    unfolding hash_groups_member by (simp add: file_hash_content[abs_def])
  note e = run_errors[OF run]
  have cnt: "count_list (errors r) (duplicate_message x)
               = (if is_cluster x then 1 else 0)" if "x \<in> set ?G" for x
  proof -
    have "count_list (errors r) (duplicate_message x)
            = count_list (map duplicate_message (filter is_cluster ?G)) (duplicate_message x)"
      unfolding e
      by (auto simp: duplicate_message_def collision_message_def
          intro!: count_list_absent pass1_errors_no_duplicate)
    also have "\<dots> = (if is_cluster x then 1 else 0)"
      using dG' duplicate_message_inj[OF injV] that by (rule count_cluster_messages)
    finally show ?thesis .
  qed
  have 5: "\<forall>(h, g)\<in>set ?G.
            count_list (errors r) (ContentHashDuplicate (map name g))
              = (if 1 < length g then 1 else 0)"
    using cnt by (auto simp: duplicate_message_def is_cluster_def)
  have 6: "\<forall>ns. ContentHashDuplicate ns \<in> set (errors r) \<longrightarrow>
            (\<exists>(h, g)\<in>set ?G. 1 < length g \<and> ns = map name g)"
    unfolding e using pass1_errors_no_duplicate(1)
    by (fastforce simp: duplicate_message_def collision_message_def is_cluster_def)
  have 7: "hash_dupes (stats r) = (\<Sum>(h, g)\<leftarrow>?G. int (length g) - 1)"
  proof -
    have "(\<lambda>g :: string \<times> raw_file list. int (length (snd g)) - 1) = (\<lambda>(h, g). int (length g) - 1)"
      by (simp add: fun_eq_iff)
    then show ?thesis
      unfolding run_hash_dupes[OF run] extra_copies_all[OF hash_groups_nonempty] by simp
  qed
  have 8: "?G = [(sha256 c, ?V)] \<and>
            hash_dupes (stats r) = int (length ?V) - 1 \<and>
            count_list (errors r) (ContentHashDuplicate (map name ?V))
              = (if 1 < length ?V then 1 else 0)"
    if a: "?V \<noteq> [] \<and> (\<forall>fp\<in>set ?V. content fp = c)" for c
  proof -
    from a have f: "filter (\<lambda>fp. sha256 (content fp) = sha256 c) ?V = ?V"
      by (simp add: filter_id_conv)
    from a obtain fp0 where "fp0 \<in> set ?V" by (cases ?V) auto
    with a have im: "(\<lambda>fp. sha256 (content fp)) ` set ?V = {sha256 c}" by force
    have "set ?G = {(sha256 c, ?V)}"
      using mem f im by (auto simp del: set_filter)
    with dG have G: "?G = [(sha256 c, ?V)]" by (rule singleton_groups)
    have "(sha256 c, ?V) \<in> set ?G" by (simp add: G)
    from 5[rule_format, OF this] have c1: "count_list (errors r) (ContentHashDuplicate (map name ?V))
              = (if 1 < length ?V then 1 else 0)" by simp
    from a have "1 \<le> length ?V" by (cases ?V) auto
    then have "hash_dupes (stats r) = int (length ?V) - 1"
      unfolding 7 G by simp
    with G c1 show ?thesis by simp
  qed
  have 2: "\<forall>fp. file_hash sha256 fp = sha256 (content fp)"
    by (simp add: file_hash_content)
  have 4: "\<forall>h g. (h, g) \<in> set ?G \<longleftrightarrow>
            h \<in> (\<lambda>fp. sha256 (content fp)) ` set ?V \<and>
            g = filter (\<lambda>fp. sha256 (content fp) = h) ?V"
    using mem by blast
  have all8: "\<forall>c. ?V \<noteq> [] \<and> (\<forall>fp\<in>set ?V. content fp = c) \<longrightarrow>
            ?G = [(sha256 c, ?V)] \<and>
            hash_dupes (stats r) = int (length ?V) - 1 \<and>
            count_list (errors r) (ContentHashDuplicate (map name ?V))
              = (if 1 < length ?V then 1 else 0)"
    by (intro allI impI) (rule 8)
  have 9: "\<forall>c. inj_on sha256 (content ` set ?V) \<and> c \<in> content ` set ?V \<longrightarrow>
            (sha256 c, filter (\<lambda>fp. content fp = c) ?V) \<in> set ?G"
    by (blast intro: hash_group_of_content)
  show ?thesis
    by (intro conjI V 2 dG 4 5 6 7 all8 9)
qed













lemmas example_parsed_literal = example_parsed [unfolded example_names]

lemma example_distinct: "distinct (map name (json_files_of (example_raw example_files)))"
  by (simp add: example_json_files example_names)

lemma example_hash:
  "file_hash example_digest raw_upper = ''1''" "file_hash example_digest raw_lower = ''0''"
  "file_hash example_digest raw_copy = ''0''"
  by (simp_all add: file_hash_content raw_defs example_digest_def)

lemma example_valid_list:
  "filter structurally_valid (json_files_of (example_raw example_files))
     = [raw_upper, raw_lower, raw_copy]"
  by (simp add: example_json_files example_valid)

lemma example_hash_groups:
  "hash_groups example_digest [raw_upper, raw_lower, raw_copy]
     = [(''1'', [raw_upper]), (''0'', [raw_lower, raw_copy])]"
  by (simp add: hash_groups_def example_hash)



theorem content_hash_duplicates_witness:
  "example_run = Inr (projr example_run) \<and>
   distinct (map name (json_files_of (example_raw example_files))) \<and>
   hash_groups example_digest (valid_list (projr example_run))
     = [(''1'', [raw_upper]), (''0'', [raw_lower, raw_copy])] \<and>
   count_list (errors (projr example_run))
     (ContentHashDuplicate [''1_incoming_0_0.json'', ''copy.json'']) = 1 \<and>
   count_list (errors (projr example_run)) (ContentHashDuplicate [''1_INCOMING_0_0.json'']) = 0 \<and>
   hash_dupes (stats (projr example_run)) = 1"
proof -
  from example_run_returns obtain r where r: "example_run = Inr r" ..
  then have v: "validate_raw example_digest (example_raw example_files) (Some example_out) True
                  = Inr r"
    by (simp add: example_run_def)
  note T = content_hash_duplicates [OF v example_distinct]
  from T have V: "valid_list r = [raw_upper, raw_lower, raw_copy]"
    by (simp add: example_valid_list)
  note G = example_hash_groups
  from T have c: "\<forall>(h, g)\<in>set (hash_groups example_digest (valid_list r)).
            count_list (errors r) (ContentHashDuplicate (map name g))
              = (if 1 < length g then 1 else 0)" by blast
  from T have d: "hash_dupes (stats r)
           = (\<Sum>(h, g)\<leftarrow>hash_groups example_digest (valid_list r). int (length g) - 1)"
    by blast
  from c d show ?thesis
    unfolding r by (simp add: V G example_distinct example_names)
qed




section \<open>The command line\<close>






section \<open>Orphan detection and deletion in one loop\<close>

text \<open>
  The claim C5 as written fails on two orphans: the first is removed from the directory
  before the second has been found to be one.
\<close>

theorem orphan_deleted_before_next_found:
  "validate_raw example_digest (example_raw [raw_broken])
     (Some (example_output [''b.json'', ''a.json''])) True
     = Inr \<lparr>errors = [CannotRead ''bad.json''],
            warnings = [BadPattern ''bad.json'', Orphan ''output'' ''a.json'',
                        Orphan ''output'' ''b.json''],
            stats = \<lparr>total_files = 1, valid_files = 0, bad_pattern = 1, bad_json = 1,
                     bad_structure = 0, hash_dupes = 0, slot_collisions = 0, orphans = 2,
                     orphans_deleted = 2\<rparr>,
            valid_list = [], parsed_names = [], out_files = [],
            fs_events = [ListOutput, OrphanFound ''a.json'', Unlink ''a.json'',
                         OrphanFound ''b.json'', Unlink ''b.json'']\<rparr>"
  by (simp add: validate_raw_def sorted_glob_def glob_json_def initial_state_def
      initial_stats_def scan_file_def hash_pass_def hash_groups_def slot_pass_def
      slot_groups_def orphan_pass_def example_raw_def example_output_def
      example_names example_loaded example_parsed_literal Let_def)

end
